theory Spec2Isabelle
  imports Main "HOL-Library.Monad_Syntax"
begin

section \<open>Python strings\<close>

text \<open>
  A Python \<open>str\<close> is modelled as an Isabelle \<open>string\<close>. The character functions below
  are those of Python on the ASCII code points (0 to 127), which is where identifiers,
  URL prefixes and percent-escapes live. Text outside ASCII is outside the model: there
  \<open>str.lower\<close>, \<open>str.strip\<close> and \<open>\d\<close> follow the Unicode tables. The only operation
  of the program that can leave ASCII from an ASCII text is the percent-decoding of
  \<open>normalize_doi\<close>; the model of that function gives no value there (see \<open>unquote\<close>).
\<close>

text \<open>\<open>str.isspace\<close> on ASCII: TAB, LF, VT, FF, CR, the separators FS, GS, RS, US, and space.\<close>

definition is_space :: "char \<Rightarrow> bool" where
  "is_space c = (let n = (of_char c :: nat) in (9 \<le> n \<and> n \<le> 13) \<or> (28 \<le> n \<and> n \<le> 32))"

text \<open>\<open>s.strip()\<close>: leading and trailing whitespace removed.\<close>

definition strip :: "string \<Rightarrow> string" where
  "strip s = rev (dropWhile is_space (rev (dropWhile is_space s)))"

definition lower_char :: "char \<Rightarrow> char" where
  "lower_char c = (let n = (of_char c :: nat) in if 65 \<le> n \<and> n \<le> 90 then char_of (n + 32) else c)"

definition upper_char :: "char \<Rightarrow> char" where
  "upper_char c = (let n = (of_char c :: nat) in if 97 \<le> n \<and> n \<le> 122 then char_of (n - 32) else c)"

text \<open>\<open>s.lower()\<close> and \<open>s.upper()\<close>.\<close>

definition lower :: "string \<Rightarrow> string" where
  "lower s = map lower_char s"

definition upper :: "string \<Rightarrow> string" where
  "upper s = map upper_char s"

text \<open>\<open>s.startswith(p)\<close>.\<close>

definition startswith :: "string \<Rightarrow> string \<Rightarrow> bool" where
  "startswith s p = (take (length p) s = p)"

definition is_digit :: "char \<Rightarrow> bool" where
  "is_digit c = (let n = (of_char c :: nat) in 48 \<le> n \<and> n \<le> 57)"

text \<open>
  The hexadecimal digits that \<open>urllib.parse\<close> accepts after a percent sign, in both
  cases, with their values.
\<close>

definition hexval :: "char \<Rightarrow> nat option" where
  "hexval c = (let n = (of_char c :: nat) in
     if 48 \<le> n \<and> n \<le> 57 then Some (n - 48)
     else if 65 \<le> n \<and> n \<le> 70 then Some (n - 55)
     else if 97 \<le> n \<and> n \<le> 102 then Some (n - 87)
     else None)"

text \<open>\<open>s.isascii()\<close>: every code point of the text is below 128.\<close>

definition isascii :: "string \<Rightarrow> bool" where
  "isascii s = list_all (\<lambda>c. (of_char c :: nat) < 128) s"

text \<open>
  \<open>urllib.parse.unquote_to_bytes\<close> on an ASCII text: every percent sign followed by two
  hexadecimal digits is replaced by the byte with that value (00 to FF); any other
  percent sign stays. (The library splits the text at the percent signs and decodes each
  piece whose first two characters are hexadecimal digits, which is this left-to-right
  scan.) The result is a sequence of bytes, held here in a \<open>string\<close>.
\<close>

fun unquote_to_bytes :: "string \<Rightarrow> string" where
  "unquote_to_bytes (c # h # l # rest) =
     (if c = CHR ''%'' \<and> hexval h \<noteq> None \<and> hexval l \<noteq> None
      then char_of (16 * the (hexval h) + the (hexval l)) # unquote_to_bytes rest
      else c # unquote_to_bytes (h # l # rest))"
| "unquote_to_bytes s = s"

text \<open>
  \<open>urllib.parse.unquote\<close> on an ASCII text is \<open>unquote_to_bytes\<close> followed by the decoding
  of the bytes as UTF-8 (with \<open>errors='replace'\<close>). Bytes below 80 decode to themselves.
  A byte from 80 to FF, which an escape such as \<open>%C3\<close> gives, decodes to (part of) a
  character outside ASCII or to the replacement character: the model does not have
  these characters, and \<open>None\<close> says that the decoded text is outside the model. It is
  not a value of the source, which raises nothing here. A text that holds a character
  outside ASCII itself is outside the model in the same way.
\<close>

definition unquote :: "string \<Rightarrow> string option" where
  "unquote s = (let bytes = unquote_to_bytes s in if isascii bytes then Some bytes else None)"

section \<open>Identifier normalizer\<close>

text \<open>The prefixes that \<open>normalize_doi\<close> removes, in the order of the source.\<close>

definition prefixes :: "string list" where
  "prefixes = [''https://doi.org/'', ''http://doi.org/'', ''https://dx.doi.org/'',
     ''http://dx.doi.org/'', ''doi:'']"

text \<open>
  The loop over the prefixes: the first prefix that the lowercased text starts with is
  cut off the text itself (which keeps its case), and the loop breaks.
\<close>

fun remove_prefix :: "string list \<Rightarrow> string \<Rightarrow> string \<Rightarrow> string" where
  "remove_prefix [] doi_lower doi = doi"
| "remove_prefix (p # ps) doi_lower doi =
     (if startswith doi_lower p then drop (length p) doi else remove_prefix ps doi_lower doi)"

text \<open>
  \<open>.+$\<close> of the pattern: one or more characters other than a newline, up to the end of
  the text or up to a newline that ends the text.
\<close>

definition dot_plus_end :: "string \<Rightarrow> bool" where
  "dot_plus_end t =
     (let body = takeWhile (\<lambda>c. c \<noteq> CHR 0x0A) t; rest = dropWhile (\<lambda>c. c \<noteq> CHR 0x0A) t
      in body \<noteq> [] \<and> (rest = [] \<or> rest = [CHR 0x0A]))"

text \<open>
  \<open>re.match(r'^10\.\d{4,}/.+$', doi, re.IGNORECASE)\<close>. The pattern has no letters, so
  the flag changes nothing. A slash is not a digit, so \<open>\d{4,}\<close> followed by a slash
  can only match the whole run of digits after \<open>10.\<close>.
\<close>

definition doi_pattern :: "string \<Rightarrow> bool" where
  "doi_pattern s =
     (startswith s ''10.'' \<and>
      (let r = drop 3 s; ds = takeWhile is_digit r; t = dropWhile is_digit r
       in 4 \<le> length ds \<and> startswith t ''/'' \<and> dot_plus_end (drop 1 t)))"

text \<open>
  \<open>normalize_doi\<close> on a string: \<open>None\<close> is the source's \<open>None\<close> (invalid), \<open>Some\<close> the
  canonical identifier. Where the percent-decoded text is outside the model
  (\<open>unquote raw = None\<close>) the model gives no value: the result is left unspecified, and
  every property below that depends on the result assumes \<open>unquote raw \<noteq> None\<close>.
\<close>

definition normalize_doi :: "string \<Rightarrow> string option" where
  "normalize_doi raw =
     (if raw = [] then None
      else
        case unquote raw of
          None \<Rightarrow> undefined
        | Some decoded \<Rightarrow>
            let doi = strip decoded;
                doi_lower = lower doi;
                doi = remove_prefix prefixes doi_lower doi;
                doi = strip doi
            in if doi_pattern doi then Some (lower doi) else None)"

text \<open>A text is stripped when \<open>strip\<close> has nothing to remove from it.\<close>

definition stripped :: "string \<Rightarrow> bool" where
  "stripped s = (s = [] \<or> (\<not> is_space (hd s) \<and> \<not> is_space (last s)))"

section \<open>Decoded JSON values\<close>

text \<open>
  What \<open>response.json()\<close> returns: \<open>None\<close>, a bool, an int, a str, a list or a dict (in
  the order of the document). JSON numbers with a fraction or an exponent, which Python
  decodes as floats, are not modelled.
\<close>

datatype json =
    JNull
  | JBool bool
  | JNum int
  | JStr string
  | JArr "json list"
  | JObj "(string \<times> json) list"

text \<open>Python's truth value of a decoded value, as \<open>if x:\<close> and \<open>not x\<close> test it.\<close>

fun truthy :: "json \<Rightarrow> bool" where
  "truthy JNull = False"
| "truthy (JBool b) = b"
| "truthy (JNum n) = (n \<noteq> 0)"
| "truthy (JStr s) = (s \<noteq> [])"
| "truthy (JArr xs) = (xs \<noteq> [])"
| "truthy (JObj kvs) = (kvs \<noteq> [])"

text \<open>
  Operations on decoded values that can raise return an option: \<open>None\<close> says that the
  operation raises (an \<open>AttributeError\<close>, \<open>TypeError\<close>, \<open>KeyError\<close> or \<open>IndexError\<close>).
  The callers catch all of them alike, with \<open>except Exception\<close>.
\<close>

text \<open>\<open>x.get(key, default)\<close>: only a dict has the method. The keys of a dict are distinct.\<close>

fun dict_get :: "json \<Rightarrow> string \<Rightarrow> json \<Rightarrow> json option" where
  "dict_get (JObj kvs) key dflt = Some (case map_of kvs key of Some v \<Rightarrow> v | None \<Rightarrow> dflt)"
| "dict_get _ key dflt = None"

text \<open>\<open>xs[0]\<close> on a list: an empty list raises \<open>IndexError\<close>.\<close>

fun index0 :: "'a list \<Rightarrow> 'a option" where
  "index0 [] = None"
| "index0 (x # xs) = Some x"

text \<open>
  \<open>key in x\<close> for a string \<open>key\<close>: a key of a dict, an element of a list, a substring of
  a string; \<open>None\<close>, a bool and an int are not iterable.
\<close>

definition is_substring :: "string \<Rightarrow> string \<Rightarrow> bool" where
  "is_substring key s = list_ex (\<lambda>i. startswith (drop i s) key) [0..<Suc (length s)]"

fun py_in :: "string \<Rightarrow> json \<Rightarrow> bool option" where
  "py_in key (JObj kvs) = Some (key \<in> set (map fst kvs))"
| "py_in key (JArr xs) = Some (JStr key \<in> set xs)"
| "py_in key (JStr s) = Some (is_substring key s)"
| "py_in key _ = None"

text \<open>
  \<open>for item in x\<close>: the elements of a list, the characters of a string, the keys of a
  dict; anything else raises.
\<close>

fun py_iter :: "json \<Rightarrow> json list option" where
  "py_iter (JArr xs) = Some xs"
| "py_iter (JStr s) = Some (map (\<lambda>c. JStr [c]) s)"
| "py_iter (JObj kvs) = Some (map (\<lambda>kv. JStr (fst kv)) kvs)"
| "py_iter _ = None"

text \<open>\<open>x[key]\<close> for a string \<open>key\<close>: a list and a string want an integer index.\<close>

fun py_getitem :: "json \<Rightarrow> string \<Rightarrow> json option" where
  "py_getitem (JObj kvs) key = map_of kvs key"
| "py_getitem _ key = None"

text \<open>\<open>len(x)\<close> and \<open>x[0]\<close>; the keys of a decoded dict are strings, so \<open>x[0]\<close> on a dict raises.\<close>

fun py_len :: "json \<Rightarrow> nat option" where
  "py_len (JStr s) = Some (length s)"
| "py_len (JArr xs) = Some (length xs)"
| "py_len (JObj kvs) = Some (length kvs)"
| "py_len _ = None"

fun py_index0 :: "json \<Rightarrow> json option" where
  "py_index0 (JStr (c # s)) = Some (JStr [c])"
| "py_index0 (JArr (x # xs)) = Some x"
| "py_index0 _ = None"

text \<open>\<open>str(n)\<close> for an int.\<close>

function nat_digits :: "nat \<Rightarrow> string" where
  "nat_digits n =
     (if n < 10 then [char_of (48 + n)] else nat_digits (n div 10) @ [char_of (48 + n mod 10)])"
  by pat_completeness auto
termination
  by (relation "measure id") auto

definition int_str :: "int \<Rightarrow> string" where
  "int_str i = (if i < 0 then CHR ''-'' # nat_digits (nat (- i)) else nat_digits (nat i))"

text \<open>
  \<open>repr(s)\<close> for a str: single quotes, unless the text has a single and no double quote;
  the quote and the backslash are escaped, TAB, LF and CR are written \<open>\t\<close>, \<open>\n\<close>, \<open>\r\<close>,
  the other control characters \<open>\xhh\<close>.
\<close>

definition hex_digit :: "nat \<Rightarrow> char" where
  "hex_digit n = (if n < 10 then char_of (48 + n) else char_of (87 + n))"

definition repr_char :: "char \<Rightarrow> char \<Rightarrow> string" where
  "repr_char quote c =
     (let n = (of_char c :: nat) in
      if c = quote \<or> c = CHR 0x5C then [CHR 0x5C, c]
      else if n = 9 then [CHR 0x5C, CHR ''t'']
      else if n = 10 then [CHR 0x5C, CHR ''n'']
      else if n = 13 then [CHR 0x5C, CHR ''r'']
      else if n < 32 \<or> n = 127 then [CHR 0x5C, CHR ''x'', hex_digit (n div 16), hex_digit (n mod 16)]
      else [c])"

definition repr_str :: "string \<Rightarrow> string" where
  "repr_str s =
     (let quote = (if CHR 0x27 \<in> set s \<and> CHR 0x22 \<notin> set s then CHR 0x22 else CHR 0x27)
      in quote # concat (map (repr_char quote) s) @ [quote])"

text \<open>\<open>sep.join(parts)\<close>.\<close>

fun join :: "string \<Rightarrow> string list \<Rightarrow> string" where
  "join sep [] = []"
| "join sep [x] = x"
| "join sep (x # y # rest) = x @ sep @ join sep (y # rest)"

text \<open>\<open>repr(x)\<close> and \<open>str(x)\<close> of a decoded value; an f-string formats a value as \<open>str\<close> does.\<close>

fun py_repr :: "json \<Rightarrow> string" where
  "py_repr JNull = ''None''"
| "py_repr (JBool b) = (if b then ''True'' else ''False'')"
| "py_repr (JNum n) = int_str n"
| "py_repr (JStr s) = repr_str s"
| "py_repr (JArr xs) = ''['' @ join '', '' (map py_repr xs) @ '']''"
| "py_repr (JObj kvs) =
     ''{'' @ join '', '' (map (\<lambda>kv. repr_str (fst kv) @ '': '' @ py_repr (snd kv)) kvs) @ ''}''"

fun py_str :: "json \<Rightarrow> string" where
  "py_str (JStr s) = s"
| "py_str x = py_repr x"

text \<open>\<open>s.replace(old, new)\<close> for a non-empty \<open>old\<close>, and the method on a decoded value.\<close>

function str_replace :: "string \<Rightarrow> string \<Rightarrow> string \<Rightarrow> string" where
  "str_replace old new [] = []"
| "str_replace old new (c # cs) =
     (if startswith (c # cs) old then new @ str_replace old new (drop (length old - 1) cs)
      else c # str_replace old new cs)"
  by pat_completeness auto
termination
  by (relation "measure (\<lambda>(old, new, s). length s)") auto

fun py_replace :: "json \<Rightarrow> string \<Rightarrow> string \<Rightarrow> string option" where
  "py_replace (JStr s) old new = Some (str_replace old new s)"
| "py_replace _ old new = None"

text \<open>\<open>x == 0\<close>: true for the int 0 and for \<open>False\<close>.\<close>

fun py_eq_zero :: "json \<Rightarrow> bool" where
  "py_eq_zero (JNum n) = (n = 0)"
| "py_eq_zero (JBool b) = (\<not> b)"
| "py_eq_zero _ = False"

section \<open>Citation records and ordered dictionaries\<close>

text \<open>
  A citation record is the dict with the keys \<open>doi\<close>, \<open>title\<close>, \<open>authors\<close>, \<open>year\<close> and
  \<open>source\<close> that the adapters build. The title is whatever the source sent (a decoded
  value), the authors are a list of such values, the year is a string.
\<close>

record citation =
  doi :: string
  title :: json
  authors :: "json list"
  year :: string
  source :: string

text \<open>
  An \<open>OrderedDict\<close> is a list of pairs in insertion order. \<open>d[k] = v\<close> replaces the value
  of a key that is present, in place, and appends a new key at the end.
\<close>

fun odict_set :: "'k \<Rightarrow> 'v \<Rightarrow> ('k \<times> 'v) list \<Rightarrow> ('k \<times> 'v) list" where
  "odict_set k v [] = [(k, v)]"
| "odict_set k v ((k', v') # rest) =
     (if k' = k then (k, v) # rest else (k', v') # odict_set k v rest)"

section \<open>The network and the fetcher\<close>

text \<open>
  What one \<open>requests.get\<close> does: it returns a response (status code, text, and the value
  that \<open>response.json()\<close> decodes from the text, \<open>None\<close> when decoding raises), or it
  raises.
\<close>

datatype raised = Timeout | RequestException | OtherException

datatype outcome =
    Response int string "json option"
  | Raises raised

text \<open>
  The events of a run that the claims observe: a GET with its URL and parameters, a
  \<open>time.sleep\<close> of whole seconds inside the fetcher, and the pause of
  \<open>DELAY_BETWEEN_REQUESTS\<close> (half a second) that the callers make. Console output is not
  modelled.
\<close>

datatype event =
    Get string "(string \<times> json) list option"
  | Sleep nat
  | Pause

text \<open>
  The world: the outcomes of the GETs still to come, in order (\<open>pending w 0\<close> is the
  outcome of the next one), and the events so far.
\<close>

record world =
  pending :: "nat \<Rightarrow> outcome"
  trace :: "event list"

definition http_get :: "string \<Rightarrow> (string \<times> json) list option \<Rightarrow> world \<Rightarrow> outcome \<times> world" where
  "http_get url params w =
     (pending w 0, w\<lparr>pending := (\<lambda>n. pending w (Suc n)), trace := trace w @ [Get url params]\<rparr>)"

definition sleep :: "nat \<Rightarrow> world \<Rightarrow> world" where
  "sleep seconds w = w\<lparr>trace := trace w @ [Sleep seconds]\<rparr>"

definition pause :: "world \<Rightarrow> world" where
  "pause w = w\<lparr>trace := trace w @ [Pause]\<rparr>"

definition RETRY_COUNT :: nat where
  "RETRY_COUNT = 3"

text \<open>
  \<open>make_request\<close>, from attempt number \<open>attempt\<close> of \<open>range(retry)\<close> on. The result
  \<open>JNull\<close> is the source's \<open>None\<close>. A status 200 whose body does not decode raises
  inside the \<open>try\<close> (a \<open>RequestException\<close> or a \<open>ValueError\<close>, by the version of the
  library); both handlers sleep one second and the loop goes on.
\<close>

function make_request_from ::
  "string \<Rightarrow> (string \<times> json) list option \<Rightarrow> nat \<Rightarrow> nat \<Rightarrow> world \<Rightarrow> json \<times> world" where
  "make_request_from url params retry attempt w =
     (if attempt < retry then
        (case http_get url params w of
           (Response status_code text decoded, w1) \<Rightarrow>
             if status_code = 200 then
               (case decoded of
                  Some body \<Rightarrow> (body, w1)
                | None \<Rightarrow> make_request_from url params retry (Suc attempt) (sleep 1 w1))
             else if status_code = 404 then (JNull, w1)
             else if status_code = 429 then
               make_request_from url params retry (Suc attempt) (sleep ((attempt + 1) * 5) w1)
             else make_request_from url params retry (Suc attempt) (sleep 1 w1)
         | (Raises Timeout, w1) \<Rightarrow>
             make_request_from url params retry (Suc attempt) (sleep 2 w1)
         | (Raises RequestException, w1) \<Rightarrow>
             make_request_from url params retry (Suc attempt) (sleep 1 w1)
         | (Raises OtherException, w1) \<Rightarrow>
             make_request_from url params retry (Suc attempt) (sleep 1 w1))
      else (JNull, w))"
  by pat_completeness auto
termination
  by (relation "measure (\<lambda>(url, params, retry, attempt, w). retry - attempt)") auto

definition make_request ::
  "string \<Rightarrow> (string \<times> json) list option \<Rightarrow> nat \<Rightarrow> world \<Rightarrow> json \<times> world" where
  "make_request url params retry w = make_request_from url params retry 0 w"

text \<open>
  \<open>make_text_request\<close>: the same loop, returning \<open>response.text\<close> on a 200 (\<open>None\<close> is the
  source's \<open>None\<close>).
\<close>

function make_text_request_from ::
  "string \<Rightarrow> (string \<times> json) list option \<Rightarrow> nat \<Rightarrow> nat \<Rightarrow> world \<Rightarrow> string option \<times> world" where
  "make_text_request_from url params retry attempt w =
     (if attempt < retry then
        (case http_get url params w of
           (Response status_code text decoded, w1) \<Rightarrow>
             if status_code = 200 then (Some text, w1)
             else if status_code = 404 then (None, w1)
             else if status_code = 429 then
               make_text_request_from url params retry (Suc attempt) (sleep ((attempt + 1) * 5) w1)
             else make_text_request_from url params retry (Suc attempt) (sleep 1 w1)
         | (Raises Timeout, w1) \<Rightarrow>
             make_text_request_from url params retry (Suc attempt) (sleep 2 w1)
         | (Raises RequestException, w1) \<Rightarrow>
             make_text_request_from url params retry (Suc attempt) (sleep 1 w1)
         | (Raises OtherException, w1) \<Rightarrow>
             make_text_request_from url params retry (Suc attempt) (sleep 1 w1))
      else (None, w))"
  by pat_completeness auto
termination
  by (relation "measure (\<lambda>(url, params, retry, attempt, w). retry - attempt)") auto

definition make_text_request ::
  "string \<Rightarrow> (string \<times> json) list option \<Rightarrow> nat \<Rightarrow> world \<Rightarrow> string option \<times> world" where
  "make_text_request url params retry w = make_text_request_from url params retry 0 w"

section \<open>Depositor-Report reader\<close>

text \<open>
  The line boundaries of \<open>str.splitlines\<close> in ASCII: LF, VT, FF, CR, FS, GS, RS, and CR LF
  as one.
\<close>

definition is_linebreak :: "char \<Rightarrow> bool" where
  "is_linebreak c = (let n = (of_char c :: nat) in (10 \<le> n \<and> n \<le> 13) \<or> (28 \<le> n \<and> n \<le> 30))"

fun splitlines_from :: "string \<Rightarrow> string \<Rightarrow> string list" where
  "splitlines_from cur [] = (if cur = [] then [] else [cur])"
| "splitlines_from cur [c] = (if is_linebreak c then [cur] else [cur @ [c]])"
| "splitlines_from cur (c # d # rest) =
     (if c = CHR 0x0D \<and> d = CHR 0x0A then cur # splitlines_from [] rest
      else if is_linebreak c then cur # splitlines_from [] (d # rest)
      else splitlines_from (cur @ [c]) (d # rest))"

definition splitlines :: "string \<Rightarrow> string list" where
  "splitlines text = splitlines_from [] text"

text \<open>
  \<open>s.split(None, 1)\<close>: no field when the text is all whitespace, else the first run of
  non-whitespace and, when something follows the whitespace after it, the remainder.
\<close>

definition split_none_1 :: "string \<Rightarrow> string list" where
  "split_none_1 s =
     (let s1 = dropWhile is_space s in
      if s1 = [] then []
      else
        let first = takeWhile (\<lambda>c. \<not> is_space c) s1;
            remainder = dropWhile is_space (dropWhile (\<lambda>c. \<not> is_space c) s1)
        in if remainder = [] then [first] else [first, remainder])"

definition CROSSREF_DEPOSITORREPORT_URL :: string where
  "CROSSREF_DEPOSITORREPORT_URL = ''https://data.crossref.org/depositorreport''"

text \<open>The loop over the lines of the report; \<open>dois\<close> is the list built so far.\<close>

fun report_lines :: "string list \<Rightarrow> string list \<Rightarrow> string list option" where
  "report_lines [] dois = Some dois"
| "report_lines (line # rest) dois =
     (let line = strip line in
      if line = [] then report_lines rest dois
      else if startswith (upper line) ''DOI'' then report_lines rest dois
      else
        (case index0 (split_none_1 line) of
           None \<Rightarrow> None
         | Some first_col \<Rightarrow>
             (case normalize_doi first_col of
                Some d \<Rightarrow> report_lines rest (dois @ [d])
              | None \<Rightarrow> report_lines rest dois)))"

text \<open>
  The reader has no \<open>try\<close>: \<open>None\<close> would be an \<open>IndexError\<close> leaving the function.
\<close>

definition read_dois_from_crossref_depositor_report ::
  "string \<Rightarrow> world \<Rightarrow> string list option \<times> world" where
  "read_dois_from_crossref_depositor_report pubid w =
     (case make_text_request CROSSREF_DEPOSITORREPORT_URL (Some [(''pubid'', JStr pubid)])
             RETRY_COUNT w of
        (None, w1) \<Rightarrow> (Some [], w1)
      | (Some text, w1) \<Rightarrow>
          if text = [] then (Some [], w1) else (report_lines (splitlines text) [], w1))"

section \<open>OpenAlex adapter\<close>

definition OPENALEX_BASE_URL :: string where
  "OPENALEX_BASE_URL = ''https://api.openalex.org''"

text \<open>The loop of \<open>extract_authors_from_openalex\<close>; \<open>names\<close> is the list built so far.\<close>

fun extract_authors_loop :: "json list \<Rightarrow> json list \<Rightarrow> json list option" where
  "extract_authors_loop [] names = Some names"
| "extract_authors_loop (authorship # rest) names =
     do {
       author_info \<leftarrow> dict_get authorship ''author'' (JObj []);
       name \<leftarrow> dict_get author_info ''display_name'' (JStr []);
       if truthy name then extract_authors_loop rest (names @ [name])
       else extract_authors_loop rest names
     }"

definition extract_authors_from_openalex :: "json \<Rightarrow> json list option" where
  "extract_authors_from_openalex authorships =
     do {
       items \<leftarrow> py_iter authorships;
       extract_authors_loop items []
     }"

text \<open>
  The record that the adapter builds for a work with the canonical identifier
  \<open>citing_doi\<close>; \<open>None\<close> when building it raises.
\<close>

definition openalex_citation :: "json \<Rightarrow> string \<Rightarrow> citation option" where
  "openalex_citation work citing_doi =
     do {
       work_title \<leftarrow> dict_get work ''title'' (JStr []);
       authorships \<leftarrow> dict_get work ''authorships'' (JArr []);
       work_authors \<leftarrow> extract_authors_from_openalex authorships;
       publication_year \<leftarrow> dict_get work ''publication_year'' JNull;
       Some \<lparr>doi = citing_doi, title = work_title, authors = work_authors,
         year = (if truthy publication_year then py_str publication_year else []),
         source = ''OpenAlex''\<rparr>
     }"

text \<open>
  The loop over the works of one page. It returns the list of citations, which it
  extends in place, and whether it ran to its end (\<open>False\<close>: an exception left it).
  \<open>normalize_doi\<close> takes \<open>str(raw_doi)\<close>, of a value that is not empty.
\<close>

fun works_loop :: "json list \<Rightarrow> citation list \<Rightarrow> citation list \<times> bool" where
  "works_loop [] citations = (citations, True)"
| "works_loop (work # rest) citations =
     (case dict_get work ''doi'' (JStr []) of
        None \<Rightarrow> (citations, False)
      | Some raw_doi \<Rightarrow>
          if truthy raw_doi then
            (case normalize_doi (py_str raw_doi) of
               None \<Rightarrow> works_loop rest citations
             | Some citing_doi \<Rightarrow>
                 (case openalex_citation work citing_doi of
                    None \<Rightarrow> (citations, False)
                  | Some c \<Rightarrow> works_loop rest (citations @ [c])))
          else works_loop rest citations)"

definition max_pages :: nat where
  "max_pages = 50"

text \<open>
  The \<open>while\<close> loop over the pages. Every exit returns the citations collected so far:
  the end of the loop, the \<open>break\<close>, and an exception, which the \<open>except Exception\<close>
  around the whole function catches.
\<close>

function citation_pages ::
  "string \<Rightarrow> json \<Rightarrow> nat \<Rightarrow> citation list \<Rightarrow> world \<Rightarrow> citation list \<times> world" where
  "citation_pages openalex_id cursor page_count citations w =
     (if truthy cursor \<and> page_count < max_pages then
        (case make_request (OPENALEX_BASE_URL @ ''/works'')
                (Some [(''filter'', JStr (''cites:'' @ openalex_id)), (''per-page'', JNum 200),
                   (''cursor'', cursor),
                   (''select'', JStr ''doi,title,authorships,publication_year'')])
                RETRY_COUNT w of
           (data, w1) \<Rightarrow>
             if \<not> truthy data then (citations, w1)
             else
               (case py_in ''results'' data of
                  None \<Rightarrow> (citations, w1)
                | Some False \<Rightarrow> (citations, w1)
                | Some True \<Rightarrow>
                    (case do { results \<leftarrow> dict_get data ''results'' (JArr []); py_iter results } of
                       None \<Rightarrow> (citations, w1)
                     | Some works \<Rightarrow>
                         (case works_loop works citations of
                            (citations1, False) \<Rightarrow> (citations1, w1)
                          | (citations1, True) \<Rightarrow>
                              (case do { meta \<leftarrow> dict_get data ''meta'' (JObj []);
                                         dict_get meta ''next_cursor'' JNull } of
                                 None \<Rightarrow> (citations1, w1)
                               | Some next_cursor \<Rightarrow>
                                   citation_pages openalex_id next_cursor (page_count + 1)
                                     citations1 (pause w1))))))
      else (citations, w))"
  by pat_completeness auto
termination
  by (relation "measure (\<lambda>(openalex_id, cursor, page_count, citations, w). max_pages - page_count)")
    auto

definition get_citations_from_openalex :: "string \<Rightarrow> world \<Rightarrow> citation list \<times> world" where
  "get_citations_from_openalex d w =
     (case make_request (OPENALEX_BASE_URL @ ''/works/doi:'' @ d) None RETRY_COUNT w of
        (work_data, w1) \<Rightarrow>
          if \<not> truthy work_data then ([], w1)
          else
            (case do { work_id \<leftarrow> dict_get work_data ''id'' (JStr []);
                       openalex_id \<leftarrow> py_replace work_id ''https://openalex.org/'' [];
                       cited_by_count \<leftarrow> dict_get work_data ''cited_by_count'' (JNum 0);
                       Some (openalex_id, cited_by_count) } of
               None \<Rightarrow> ([], w1)
             | Some (openalex_id, cited_by_count) \<Rightarrow>
                 if py_eq_zero cited_by_count then ([], w1)
                 else citation_pages openalex_id (JStr ''*'') 0 [] w1))"

text \<open>What the claims count in a trace: the GETs and the pauses.\<close>

fun is_get :: "event \<Rightarrow> bool" where
  "is_get (Get url params) = True"
| "is_get _ = False"

definition gets :: "world \<Rightarrow> nat" where
  "gets w = length (filter is_get (trace w))"

definition pauses :: "world \<Rightarrow> nat" where
  "pauses w = length (filter (\<lambda>e. e = Pause) (trace w))"

section \<open>Merge and deduplication\<close>

text \<open>
  The \<open>else\<close> branch of \<open>add_to_merged\<close>: the three assignments to the record that is in
  the dictionary, each under its test.
\<close>

definition backfill :: "citation \<Rightarrow> citation \<Rightarrow> citation" where
  "backfill existing citation =
     (let existing = (if \<not> truthy (title existing) \<and> truthy (title citation)
                      then existing\<lparr>title := title citation\<rparr> else existing);
          existing = (if authors existing = [] \<and> authors citation \<noteq> []
                      then existing\<lparr>authors := authors citation\<rparr> else existing);
          existing = (if year existing = [] \<and> year citation \<noteq> []
                      then existing\<lparr>year := year citation\<rparr> else existing)
      in existing)"

text \<open>
  \<open>add_to_merged\<close>, with the dictionary \<open>merged\<close> passed and returned. The record under a
  key is updated in place. (The source stores the record objects of the input lists
  themselves; a list that holds one object twice merges it with itself, which changes
  nothing, as here.)
\<close>

fun add_to_merged :: "citation list \<Rightarrow> (string \<times> citation) list \<Rightarrow> (string \<times> citation) list" where
  "add_to_merged [] merged = merged"
| "add_to_merged (citation # rest) merged =
     (case map_of merged (doi citation) of
        None \<Rightarrow> add_to_merged rest (odict_set (doi citation) citation merged)
      | Some existing \<Rightarrow>
          add_to_merged rest (odict_set (doi citation) (backfill existing citation) merged))"

definition merge_citations :: "citation list \<Rightarrow> citation list \<Rightarrow> citation list" where
  "merge_citations openalex_citations opencitations_citations =
     map snd (add_to_merged opencitations_citations (add_to_merged openalex_citations []))"

text \<open>
  The spec's words for the order of the output: the order in which each value was first
  seen.
\<close>

definition first_seen :: "'a list \<Rightarrow> 'a list" where
  "first_seen xs = foldl (\<lambda>seen x. if x \<in> set seen then seen else seen @ [x]) [] xs"

text \<open>
  The spec's words for a merged field: the value of the first-inserted record when it is
  not empty, else the first value that is not empty among the later records with the same
  identifier, else the value of the first-inserted record.
\<close>

definition backfilled :: "('a \<Rightarrow> bool) \<Rightarrow> 'a \<Rightarrow> 'a list \<Rightarrow> 'a" where
  "backfilled nonempty v later =
     (if nonempty v then v else (case find nonempty later of Some u \<Rightarrow> u | None \<Rightarrow> v))"

section \<open>Enrichment\<close>

definition CROSSREF_BASE_URL :: string where
  "CROSSREF_BASE_URL = ''https://api.crossref.org/works''"

text \<open>The loop over the authors of a Crossref message; \<open>names\<close> is the list built so far.\<close>

fun crossref_authors :: "json list \<Rightarrow> json list \<Rightarrow> json list option" where
  "crossref_authors [] names = Some names"
| "crossref_authors (author # rest) names =
     do {
       given \<leftarrow> dict_get author ''given'' (JStr []);
       family \<leftarrow> dict_get author ''family'' (JStr []);
       full_name \<leftarrow>
         (if truthy given \<and> truthy family then Some (JStr (py_str given @ '' '' @ py_str family))
          else if truthy family then Some family
          else if truthy given then Some given
          else dict_get author ''name'' (JStr []));
       if truthy full_name then
         (case full_name of
            JStr name \<Rightarrow> crossref_authors rest (names @ [JStr (strip name)])
          | _ \<Rightarrow> None)
       else crossref_authors rest names
     }"

text \<open>
  The loop over the date fields: the year is \<open>str\<close> of the first element of the first
  date part of the first field that has one.
\<close>

fun crossref_year :: "string list \<Rightarrow> json \<Rightarrow> string option" where
  "crossref_year [] message = Some []"
| "crossref_year (field # rest) message =
     do {
       date_info \<leftarrow> dict_get message field (JObj []);
       (case date_info of
          JObj kvs \<Rightarrow>
            do {
              date_parts \<leftarrow> dict_get date_info ''date-parts'' (JArr []);
              (case date_parts of
                 JArr (part # parts) \<Rightarrow>
                   if truthy part then
                     do {
                       n \<leftarrow> py_len part;
                       year_value \<leftarrow> (if n > 0 then py_index0 part else Some JNull);
                       if truthy year_value then Some (py_str year_value)
                       else crossref_year rest message
                     }
                   else crossref_year rest message
               | _ \<Rightarrow> crossref_year rest message)
            }
        | _ \<Rightarrow> crossref_year rest message)
     }"

text \<open>
  The body of the \<open>try\<close> of \<open>get_metadata_from_crossref\<close> for a decoded value that is not
  empty; \<open>None\<close> when it raises.
\<close>

definition crossref_metadata :: "json \<Rightarrow> (json \<times> json list \<times> string) option" where
  "crossref_metadata data =
     do {
       has_message \<leftarrow> py_in ''message'' data;
       if \<not> has_message then Some (JNull, [], [])
       else
         do {
           message \<leftarrow> py_getitem data ''message'';
           titles \<leftarrow> dict_get message ''title'' (JArr []);
           message_title \<leftarrow>
             (if truthy titles then (case titles of JArr ts \<Rightarrow> index0 ts | _ \<Rightarrow> Some titles)
              else Some (JStr []));
           author_list \<leftarrow> dict_get message ''author'' (JArr []);
           author_items \<leftarrow> py_iter author_list;
           message_authors \<leftarrow> crossref_authors author_items [];
           message_year \<leftarrow>
             crossref_year [''issued'', ''published-print'', ''published-online'', ''created'']
               message;
           Some (message_title, message_authors, message_year)
         }
     }"

text \<open>
  \<open>get_metadata_from_crossref\<close>: the title, the authors and the year, or
  \<open>(None, [], '')\<close> when there is no data or the \<open>try\<close> raises.
\<close>

definition get_metadata_from_crossref ::
  "string \<Rightarrow> world \<Rightarrow> (json \<times> json list \<times> string) \<times> world" where
  "get_metadata_from_crossref d w =
     (case make_request (CROSSREF_BASE_URL @ ''/'' @ d) None RETRY_COUNT w of
        (data, w1) \<Rightarrow>
          if \<not> truthy data then ((JNull, [], []), w1)
          else
            (case crossref_metadata data of
               None \<Rightarrow> ((JNull, [], []), w1)
             | Some metadata \<Rightarrow> (metadata, w1)))"

text \<open>
  The three assignments of \<open>enrich_citation_metadata\<close> to a record, each under its test.
\<close>

definition fill_from :: "citation \<Rightarrow> json \<times> json list \<times> string \<Rightarrow> citation" where
  "fill_from citation metadata =
     (case metadata of
        (new_title, new_authors, new_year) \<Rightarrow>
          let citation = (if truthy new_title \<and> \<not> truthy (title citation)
                          then citation\<lparr>title := new_title\<rparr> else citation);
              citation = (if new_authors \<noteq> [] \<and> authors citation = []
                          then citation\<lparr>authors := new_authors\<rparr> else citation);
              citation = (if new_year \<noteq> [] \<and> year citation = []
                          then citation\<lparr>year := new_year\<rparr> else citation)
          in citation)"

text \<open>The test of \<open>enrich_citation_metadata\<close>: a title, the authors or the year is missing.\<close>

definition missing_field :: "citation \<Rightarrow> bool" where
  "missing_field citation =
     (\<not> truthy (title citation) \<or> authors citation = [] \<or> year citation = [])"

text \<open>
  \<open>enrich_citation_metadata\<close>: the records are updated in place and the list is
  returned. The records of the list are distinct objects, as \<open>merge_citations\<close> returns
  them. The progress callback only prints.
\<close>

fun enrich_citation_metadata :: "citation list \<Rightarrow> world \<Rightarrow> citation list \<times> world" where
  "enrich_citation_metadata [] w = ([], w)"
| "enrich_citation_metadata (citation # rest) w =
     (if missing_field citation then
        (case get_metadata_from_crossref (doi citation) w of
           (metadata, w1) \<Rightarrow>
             (case enrich_citation_metadata rest (pause w1) of
                (rest1, w2) \<Rightarrow> (fill_from citation metadata # rest1, w2)))
      else
        (case enrich_citation_metadata rest w of
           (rest1, w2) \<Rightarrow> (citation # rest1, w2)))"

section \<open>Orchestrator\<close>

text \<open>
  What the call \<open>process_single_doi(doi, i, len(unique_dois))\<close> does in the loop of
  \<open>main\<close>: it returns the citations, or it raises. The loop tells a \<open>KeyboardInterrupt\<close>
  from every other exception. The call is a parameter of the loop: the index differs at
  every iteration, so the parameter gives each iteration an outcome of its own.
\<close>

datatype exn = KeyboardInterrupt | Exception

fun main_loop ::
  "(string \<Rightarrow> nat \<Rightarrow> nat \<Rightarrow> exn + citation list) \<Rightarrow> nat \<Rightarrow> nat \<Rightarrow> string list \<Rightarrow>
   (string \<times> citation list) list \<Rightarrow> (string \<times> citation list) list" where
  "main_loop process_single_doi n i [] results = results"
| "main_loop process_single_doi n i (d # rest) results =
     (case process_single_doi d i n of
        Inr citations \<Rightarrow>
          main_loop process_single_doi n (i + 1) rest (odict_set d citations results)
      | Inl KeyboardInterrupt \<Rightarrow> results
      | Inl Exception \<Rightarrow>
          main_loop process_single_doi n (i + 1) rest (odict_set d [] results))"

definition main_results ::
  "(string \<Rightarrow> nat \<Rightarrow> nat \<Rightarrow> exn + citation list) \<Rightarrow> string list \<Rightarrow> (string \<times> citation list) list" where
  "main_results process_single_doi unique_dois =
     main_loop process_single_doi (length unique_dois) 1 unique_dois []"

text \<open>
  For the proofs: the record that the merge holds for an identifier, as the fold of
  \<open>backfill\<close> over the records with that identifier, in the order of the lists; and the
  dictionary of these records in first-seen order.
\<close>

definition merged_record :: "string \<Rightarrow> citation list \<Rightarrow> citation" where
  "merged_record d cs =
     (let same = filter (\<lambda>c. doi c = d) cs in foldl backfill (hd same) (tl same))"

definition merged_dict :: "citation list \<Rightarrow> (string \<times> citation) list" where
  "merged_dict cs = map (\<lambda>d. (d, merged_record d cs)) (first_seen (map doi cs))"

text \<open>Three records for the examples of the merge.\<close>

definition record_x :: citation where
  "record_x = \<lparr>doi = ''10.1234/a'', title = JStr ''X'', authors = [], year = [],
     source = ''OpenAlex''\<rparr>"

definition record_y :: citation where
  "record_y = \<lparr>doi = ''10.1234/a'', title = JStr ''Y'', authors = [JStr ''Z''], year = ''2020'',
     source = ''OpenCitations''\<rparr>"

definition record_b :: citation where
  "record_b = \<lparr>doi = ''10.1234/b'', title = JNull, authors = [], year = [],
     source = ''OpenCitations''\<rparr>"

section \<open>Definitions for the properties of the fetcher\<close>

text \<open>
  An outcome after which the loop of the fetcher goes on: anything but a 200 whose body
  decodes and a 404.
\<close>

fun retryable :: "outcome \<Rightarrow> bool" where
  "retryable (Response status_code body decoded) =
     (if status_code = 200 then decoded = None else status_code \<noteq> 404)"
| "retryable (Raises e) = True"

text \<open>
  The seconds that the fetcher sleeps after such an outcome of the attempt with the
  index \<open>attempt\<close> of \<open>range(retry)\<close>, which counts from 0: for a 429 five seconds times
  the number of the attempt counted from 1, two seconds for a timeout, else one second.
\<close>

fun backoff :: "nat \<Rightarrow> outcome \<Rightarrow> nat" where
  "backoff attempt (Response status_code body decoded) =
     (if status_code = 429 then (attempt + 1) * 5 else 1)"
| "backoff attempt (Raises Timeout) = 2"
| "backoff attempt (Raises e) = 1"

text \<open>The events of \<open>k\<close> attempts that fail, from the attempt with the index \<open>attempt\<close> on.\<close>

definition failed_attempts ::
  "string \<Rightarrow> (string \<times> json) list option \<Rightarrow> nat \<Rightarrow> nat \<Rightarrow> world \<Rightarrow> event list" where
  "failed_attempts url params attempt k w =
     concat (map (\<lambda>j. [Get url params, Sleep (backoff (attempt + j) (pending w j))]) [0..<k])"

section \<open>Definitions for the properties of the orchestrator\<close>

text \<open>
  The number of identifiers that the loop of \<open>main\<close> processes to the end: those before
  the first call that raises a \<open>KeyboardInterrupt\<close>.
\<close>

fun completed ::
  "(string \<Rightarrow> nat \<Rightarrow> nat \<Rightarrow> exn + citation list) \<Rightarrow> nat \<Rightarrow> nat \<Rightarrow> string list \<Rightarrow> nat" where
  "completed process_single_doi n i [] = 0"
| "completed process_single_doi n i (d # rest) =
     (if process_single_doi d i n = Inl KeyboardInterrupt then 0
      else Suc (completed process_single_doi n (i + 1) rest))"

text \<open>What the loop records for an outcome: the citations, or the empty list for a failure.\<close>

fun recorded :: "exn + citation list \<Rightarrow> citation list" where
  "recorded (Inr citations) = citations"
| "recorded (Inl e) = []"

text \<open>For the proofs: the entries that the loop writes, in order.\<close>

fun entries ::
  "(string \<Rightarrow> nat \<Rightarrow> nat \<Rightarrow> exn + citation list) \<Rightarrow> nat \<Rightarrow> nat \<Rightarrow> string list \<Rightarrow>
   (string \<times> citation list) list" where
  "entries process_single_doi n i [] = []"
| "entries process_single_doi n i (d # rest) =
     (if process_single_doi d i n = Inl KeyboardInterrupt then []
      else (d, recorded (process_single_doi d i n)) # entries process_single_doi n (i + 1) rest)"

text \<open>
  For the example of the orchestrator: five identifiers, and calls of which the second
  raises an exception and the fourth a \<open>KeyboardInterrupt\<close>.
\<close>

definition five_dois :: "string list" where
  "five_dois = [''10.1000/a'', ''10.1000/b'', ''10.1000/c'', ''10.1000/d'', ''10.1000/e'']"

definition flaky_process :: "string \<Rightarrow> nat \<Rightarrow> nat \<Rightarrow> exn + citation list" where
  "flaky_process d i n =
     (if i = 2 then Inl Exception else if i = 4 then Inl KeyboardInterrupt else Inr [record_x])"

section \<open>Definitions for the examples of the enrichment\<close>

text \<open>
  A Crossref answer with a title, two authors and a year, and a network that sends it
  once and answers 404 from then on.
\<close>

definition crossref_answer :: json where
  "crossref_answer =
     JObj [(''message'',
       JObj [(''title'', JArr [JStr ''Title'']),
             (''author'', JArr [JObj [(''given'', JStr ''A''), (''family'', JStr ''B'')],
                                JObj [(''name'', JStr '' Org '')]]),
             (''issued'', JObj [(''date-parts'', JArr [JArr [JNum 2019, JNum 5]])])])]"

definition answer_once :: world where
  "answer_once =
     \<lparr>pending = (\<lambda>n. if n = 0 then Response 200 [] (Some crossref_answer) else Response 404 [] None),
      trace = []\<rparr>"

definition three_records :: "citation list" where
  "three_records = [record_x, record_y, record_b]"

section \<open>Definitions for the properties of the OpenAlex adapter\<close>

text \<open>
  A source that always sends a next cursor. A work lookup after which the adapter starts
  the loop over the pages: the answer has an identifier that is a string and a citation
  count that is not zero. A page after which the loop goes on: it has results, the loop
  over them raises nothing, and its next cursor is not empty.
\<close>

definition citable_work :: "json \<Rightarrow> bool" where
  "citable_work work_data =
     (truthy work_data \<and>
      (case do { work_id \<leftarrow> dict_get work_data ''id'' (JStr []);
                 openalex_id \<leftarrow> py_replace work_id ''https://openalex.org/'' [];
                 cited_by_count \<leftarrow> dict_get work_data ''cited_by_count'' (JNum 0);
                 Some (openalex_id, cited_by_count) } of
         None \<Rightarrow> False
       | Some (openalex_id, cited_by_count) \<Rightarrow> \<not> py_eq_zero cited_by_count))"

definition endless_page :: "json \<Rightarrow> bool" where
  "endless_page data =
     (truthy data \<and>
      py_in ''results'' data = Some True \<and>
      (case do { results \<leftarrow> dict_get data ''results'' (JArr []); py_iter results } of
         None \<Rightarrow> False
       | Some works \<Rightarrow> snd (works_loop works [])) \<and>
      (case do { meta \<leftarrow> dict_get data ''meta'' (JObj []); dict_get meta ''next_cursor'' JNull } of
         None \<Rightarrow> False
       | Some next_cursor \<Rightarrow> truthy next_cursor))"

text \<open>
  For the example: an answer that serves as the cited work and as a page with one
  citing work and a next cursor, and a network that sends it at every request.
\<close>

definition endless_answer :: json where
  "endless_answer =
     JObj [(''id'', JStr ''https://openalex.org/W1''),
           (''cited_by_count'', JNum 3),
           (''results'',
              JArr [JObj [(''doi'', JStr ''https://doi.org/10.1234/ABC''),
                          (''title'', JStr ''T''),
                          (''authorships'',
                             JArr [JObj [(''author'', JObj [(''display_name'', JStr ''A B'')])]]),
                          (''publication_year'', JNum 2020)]]),
           (''meta'', JObj [(''next_cursor'', JStr ''more'')])]"

definition endless_source :: world where
  "endless_source = \<lparr>pending = (\<lambda>n. Response 200 [] (Some endless_answer)), trace = []\<rparr>"

section \<open>Properties of the normalizer\<close>

subsection \<open>Characters and strings\<close>

lemma of_char_lower_char:
  "(of_char (lower_char c) :: nat) =
     (if 65 \<le> (of_char c :: nat) \<and> (of_char c :: nat) \<le> 90 then of_char c + 32 else of_char c)"
  by (simp add: lower_char_def Let_def)














lemma stripped_strip: "stripped (strip s)"
proof -
  define t where "t = dropWhile is_space s"
  define u where "u = dropWhile is_space (rev t)"
  have s: "strip s = rev u" by (simp add: strip_def t_def u_def)
  show ?thesis
  proof (cases "u = []")
    case True
    then show ?thesis by (simp add: s stripped_def)
  next
    case False
    then have hu: "\<not> is_space (hd u)" unfolding u_def by (metis hd_dropWhile)
    obtain w where w: "rev t = w @ u"
      unfolding u_def by (metis takeWhile_dropWhile_id)
    then have t: "t = rev u @ rev w" by (metis rev_append rev_rev_ident)
    from False t have "t \<noteq> []" by simp
    then have "\<not> is_space (hd t)" unfolding t_def by (metis hd_dropWhile)
    moreover have "hd t = hd (rev u)" using t False by simp
    ultimately have "\<not> is_space (hd (rev u))" by simp
    moreover have "last (rev u) = hd u" using False by (simp add: last_rev)
    ultimately show ?thesis using hu by (simp add: s stripped_def)
  qed
qed


















subsection \<open>Letter case\<close>



subsection \<open>Prefixes\<close>












subsection \<open>Idempotence\<close>




subsection \<open>Prefixes and case\<close>




section \<open>Properties of the Depositor-Report reader\<close>

lemma of_char_upper_char:
  "(of_char (upper_char c) :: nat) =
     (if 97 \<le> (of_char c :: nat) \<and> (of_char c :: nat) \<le> 122 then of_char c - 32 else of_char c)"
proof -
  have "(of_char c :: nat) - 32 < 256"
    using nat_of_char_less_256 [of c] by arith
  then show ?thesis by (simp add: upper_char_def Let_def)
qed

lemma upper_char_eq_capital:
  assumes "65 \<le> k" and "k \<le> 90"
  shows "((of_char (upper_char c) :: nat) = k) = ((of_char (lower_char c) :: nat) = k + 32)"
  unfolding of_char_upper_char of_char_lower_char using assms by auto

lemma upper_char_D: "(upper_char c = CHR ''D'') = (lower_char c = CHR ''d'')"
proof -
  have "(upper_char c = CHR ''D'') = ((of_char (upper_char c) :: nat) = of_char (CHR ''D''))"
    by (simp only: of_char_eq_iff)
  also have "\<dots> = ((of_char (upper_char c) :: nat) = 68)" by simp
  also have "\<dots> = ((of_char (lower_char c) :: nat) = 68 + 32)"
    by (rule upper_char_eq_capital) simp_all
  also have "\<dots> = ((of_char (lower_char c) :: nat) = of_char (CHR ''d''))" by simp
  also have "\<dots> = (lower_char c = CHR ''d'')" by (simp only: of_char_eq_iff)
  finally show ?thesis .
qed

lemma upper_char_O: "(upper_char c = CHR ''O'') = (lower_char c = CHR ''o'')"
proof -
  have "(upper_char c = CHR ''O'') = ((of_char (upper_char c) :: nat) = of_char (CHR ''O''))"
    by (simp only: of_char_eq_iff)
  also have "\<dots> = ((of_char (upper_char c) :: nat) = 79)" by simp
  also have "\<dots> = ((of_char (lower_char c) :: nat) = 79 + 32)"
    by (rule upper_char_eq_capital) simp_all
  also have "\<dots> = ((of_char (lower_char c) :: nat) = of_char (CHR ''o''))" by simp
  also have "\<dots> = (lower_char c = CHR ''o'')" by (simp only: of_char_eq_iff)
  finally show ?thesis .
qed

lemma upper_char_I: "(upper_char c = CHR ''I'') = (lower_char c = CHR ''i'')"
proof -
  have "(upper_char c = CHR ''I'') = ((of_char (upper_char c) :: nat) = of_char (CHR ''I''))"
    by (simp only: of_char_eq_iff)
  also have "\<dots> = ((of_char (upper_char c) :: nat) = 73)" by simp
  also have "\<dots> = ((of_char (lower_char c) :: nat) = 73 + 32)"
    by (rule upper_char_eq_capital) simp_all
  also have "\<dots> = ((of_char (lower_char c) :: nat) = of_char (CHR ''i''))" by simp
  also have "\<dots> = (lower_char c = CHR ''i'')" by (simp only: of_char_eq_iff)
  finally show ?thesis .
qed


lemma startswith_upper_DOI: "startswith (upper s) ''DOI'' = startswith (lower s) ''doi''"
  by (auto simp add: startswith_def upper_def lower_def take_map map_eq_Cons_conv
      upper_char_D upper_char_O upper_char_I)

lemma report_lines_skip:
  assumes "startswith (lower (strip l)) ''doi''"
  shows "report_lines (l # ls) dois = report_lines ls dois"
  using assms by (simp add: Let_def startswith_upper_DOI)

lemma report_lines_filter:
  "report_lines (filter (\<lambda>l. \<not> startswith (lower (strip l)) ''doi'') ls) dois = report_lines ls dois"
proof (induction ls arbitrary: dois)
  case Nil
  show ?case by simp
next
  case (Cons l ls)
  show ?case
  proof (cases "startswith (lower (strip l)) ''doi''")
    case True
    have "report_lines (l # ls) dois = report_lines ls dois"
      using True by (rule report_lines_skip)
    moreover have "filter (\<lambda>l. \<not> startswith (lower (strip l)) ''doi'') (l # ls)
        = filter (\<lambda>l. \<not> startswith (lower (strip l)) ''doi'') ls"
      using True by simp
    ultimately show ?thesis using Cons.IH by simp
  next
    case False
    then show ?thesis using Cons.IH
      by (simp add: Let_def startswith_upper_DOI split: option.splits)
  qed
qed


lemma dropWhile_stripped: "stripped s \<Longrightarrow> dropWhile is_space s = s"
  by (cases s) (auto simp add: stripped_def)

lemma startswith_append: "startswith a p \<Longrightarrow> startswith (a @ r) p"
proof -
  assume "startswith a p"
  then have t: "take (length p) a = p" by (simp add: startswith_def)
  then have "length (take (length p) a) = length p" by simp
  then have "length p \<le> length a" by simp
  then show ?thesis using t by (simp add: startswith_def)
qed

lemma startswith_shorter: "startswith s (p @ q) \<Longrightarrow> startswith s p"
proof -
  assume "startswith s (p @ q)"
  then have "take (length p + length q) s = p @ q" by (simp add: startswith_def)
  then have "take (length p) (take (length p + length q) s) = take (length p) (p @ q)" by simp
  then show ?thesis by (simp add: startswith_def min_def)
qed


lemma split_none_1_eq:
  "split_none_1 s =
     (if dropWhile is_space s = [] then []
      else if dropWhile is_space (dropWhile (\<lambda>c. \<not> is_space c) (dropWhile is_space s)) = []
        then [takeWhile (\<lambda>c. \<not> is_space c) (dropWhile is_space s)]
        else [takeWhile (\<lambda>c. \<not> is_space c) (dropWhile is_space s),
              dropWhile is_space (dropWhile (\<lambda>c. \<not> is_space c) (dropWhile is_space s))])"
  unfolding split_none_1_def Let_def by (rule refl)

lemma first_field:
  assumes ne: "strip l \<noteq> []"
  shows "index0 (split_none_1 (strip l)) = Some (takeWhile (\<lambda>c. \<not> is_space c) (strip l))"
proof -
  have d: "dropWhile is_space (strip l) = strip l"
    using stripped_strip by (rule dropWhile_stripped)
  define s where "s = strip l"
  define f where "f = takeWhile (\<lambda>c. \<not> is_space c) s"
  define r where "r = dropWhile is_space (dropWhile (\<lambda>c. \<not> is_space c) s)"
  have "split_none_1 s = (if r = [] then [f] else [f, r])"
    unfolding split_none_1_eq s_def d f_def r_def using ne by (simp only: if_False)
  then have "index0 (split_none_1 s) = Some f" by (cases "r = []") simp_all
  then show ?thesis by (simp only: s_def f_def)
qed

lemma split_none_1_Nil: "split_none_1 [] = []"
  unfolding split_none_1_eq by simp

lemma first_col_prefix:
  assumes "index0 (split_none_1 (strip l)) = Some col"
  shows "\<exists>r. strip l = col @ r"
proof -
  have ne: "strip l \<noteq> []"
  proof
    assume "strip l = []"
    with assms show False by (simp add: split_none_1_Nil)
  qed
  from first_field [OF ne] assms have "col = takeWhile (\<lambda>c. \<not> is_space c) (strip l)" by simp
  then have "strip l = col @ dropWhile (\<lambda>c. \<not> is_space c) (strip l)" by simp
  then show ?thesis ..
qed

lemma doi_column_is_doi_line:
  assumes "index0 (split_none_1 (strip l)) = Some col" and "startswith (lower col) ''doi:''"
  shows "startswith (lower (strip l)) ''doi''"
proof -
  from assms(1) obtain r where r: "strip l = col @ r" using first_col_prefix by blast
  have "startswith (lower col) (''doi'' @ '':'')" using assms(2) by simp
  then have "startswith (lower col) ''doi''" by (rule startswith_shorter)
  then have "startswith (lower col @ lower r) ''doi''" by (rule startswith_append)
  then show ?thesis by (simp add: r lower_def)
qed

lemma report_lines_total: "report_lines ls dois \<noteq> None"
proof (induction ls arbitrary: dois)
  case Nil
  show ?case by simp
next
  case (Cons l ls)
  show ?case
  proof (cases "strip l = []")
    case True
    then show ?thesis using Cons.IH by simp
  next
    case False
    from first_field [OF False] Cons.IH False show ?thesis
      by (simp add: Let_def split: option.splits)
  qed
qed

lemma splitlines_Nil: "splitlines [] = []"
  by (simp add: splitlines_def)

lemma report_lines_append:
  "report_lines (xs @ ys) dois =
     (case report_lines xs dois of None \<Rightarrow> None | Some found \<Rightarrow> report_lines ys found)"
  by (induction xs arbitrary: dois) (simp_all add: Let_def split: option.splits)

lemma read_report:
  "fst (read_dois_from_crossref_depositor_report pubid w) =
     (case fst (make_text_request CROSSREF_DEPOSITORREPORT_URL (Some [(''pubid'', JStr pubid)])
                  RETRY_COUNT w) of
        None \<Rightarrow> Some []
      | Some text \<Rightarrow>
          report_lines (filter (\<lambda>l. \<not> startswith (lower (strip l)) ''doi'') (splitlines text)) [])"
proof (cases "make_text_request CROSSREF_DEPOSITORREPORT_URL (Some [(''pubid'', JStr pubid)]) RETRY_COUNT w")
  case (Pair r w1)
  show ?thesis
  proof (cases r)
    case None
    with Pair show ?thesis by (simp add: read_dois_from_crossref_depositor_report_def)
  next
    case (Some report)
    with Pair show ?thesis
      by (simp add: read_dois_from_crossref_depositor_report_def report_lines_filter splitlines_Nil)
  qed
qed

text \<open>
  Claim C10. The reader drops every line whose stripped text begins, in any case, with
  \<open>doi\<close>: for every report, the identifiers it returns are those of the report with
  these lines deleted. A line whose first whitespace-delimited column begins with
  \<open>doi:\<close> is such a line, so it is dropped wherever it stands and contributes nothing,
  although \<open>normalize_doi\<close> accepts the column on its own (the witness below).
\<close>

theorem report_drops_doi_lines:
  "fst (read_dois_from_crossref_depositor_report pubid w) =
     (case fst (make_text_request CROSSREF_DEPOSITORREPORT_URL (Some [(''pubid'', JStr pubid)])
                  RETRY_COUNT w) of
        None \<Rightarrow> Some []
      | Some text \<Rightarrow>
          report_lines (filter (\<lambda>l. \<not> startswith (lower (strip l)) ''doi'') (splitlines text)) []) \<and>
   (index0 (split_none_1 (strip l)) = Some col \<and> startswith (lower col) ''doi:'' \<longrightarrow>
      startswith (lower (strip l)) ''doi'' \<and>
      report_lines (before @ l # after) dois = report_lines (before @ after) dois)"
proof (intro conjI impI)
  show "fst (read_dois_from_crossref_depositor_report pubid w) =
     (case fst (make_text_request CROSSREF_DEPOSITORREPORT_URL (Some [(''pubid'', JStr pubid)])
                  RETRY_COUNT w) of
        None \<Rightarrow> Some []
      | Some text \<Rightarrow>
          report_lines (filter (\<lambda>l. \<not> startswith (lower (strip l)) ''doi'') (splitlines text)) [])"
    by (rule read_report)
next
  assume a: "index0 (split_none_1 (strip l)) = Some col \<and> startswith (lower col) ''doi:''"
  then show h: "startswith (lower (strip l)) ''doi''"
    using doi_column_is_doi_line by blast
  show "report_lines (before @ l # after) dois = report_lines (before @ after) dois"
    using report_lines_skip [OF h]
    by (simp add: report_lines_append del: report_lines.simps split: option.splits)
qed

text \<open>
  The theorem at a report of two lines, the first with the column \<open>doi:10.1234/abc\<close>:
  only the second line gives an identifier, and \<open>normalize_doi\<close> accepts the column of
  the first.
\<close>

theorem report_drops_doi_lines_witness:
  "fst (read_dois_from_crossref_depositor_report ''J297249''
      \<lparr>pending = (\<lambda>n. Response 200
          (''doi:10.1234/abc 2024'' @ [CHR 0x0A] @ ''10.1234/xyz 2024'') None),
       trace = []\<rparr>) = Some [''10.1234/xyz''] \<and>
   normalize_doi ''doi:10.1234/abc'' = Some ''10.1234/abc'' \<and>
   index0 (split_none_1 (strip ''doi:10.1234/abc 2024'')) = Some ''doi:10.1234/abc'' \<and>
   startswith (lower ''doi:10.1234/abc'') ''doi:'' \<and>
   startswith (lower (strip ''doi:10.1234/abc 2024'')) ''doi'' \<and>
   report_lines [''doi:10.1234/abc 2024'', ''10.1234/xyz 2024''] [] =
     report_lines [''10.1234/xyz 2024''] []"
proof -
  have c: "index0 (split_none_1 (strip ''doi:10.1234/abc 2024'')) = Some ''doi:10.1234/abc''"
    by code_simp
  have p: "startswith (lower ''doi:10.1234/abc'') ''doi:''" by code_simp
  have n: "normalize_doi ''doi:10.1234/abc'' = Some ''10.1234/abc''" by code_simp
  have r: "fst (read_dois_from_crossref_depositor_report ''J297249''
      \<lparr>pending = (\<lambda>n. Response 200
          (''doi:10.1234/abc 2024'' @ [CHR 0x0A] @ ''10.1234/xyz 2024'') None),
       trace = []\<rparr>) = Some [''10.1234/xyz'']"
    by code_simp
  from report_drops_doi_lines
    [of "''J297249''" _ "''doi:10.1234/abc 2024''" "''doi:10.1234/abc''" "[]"
      "[''10.1234/xyz 2024'']" "[]"] c p
  have "startswith (lower (strip ''doi:10.1234/abc 2024'')) ''doi'' \<and>
    report_lines [''doi:10.1234/abc 2024'', ''10.1234/xyz 2024''] [] =
      report_lines [''10.1234/xyz 2024''] []"
    by (simp del: report_lines.simps)
  with c p n r show ?thesis by (simp del: report_lines.simps)
qed

section \<open>Properties of the merge\<close>

lemma first_seen_snoc:
  "first_seen (xs @ [x]) = (if x \<in> set (first_seen xs) then first_seen xs else first_seen xs @ [x])"
  by (simp add: first_seen_def)

lemma set_first_seen: "set (first_seen xs) = set xs"
  by (induction xs rule: rev_induct) (auto simp add: first_seen_snoc, simp add: first_seen_def)

lemma distinct_first_seen: "distinct (first_seen xs)"
  by (induction xs rule: rev_induct) (simp add: first_seen_def, simp add: first_seen_snoc)

lemma first_seen_remdups: "first_seen xs = rev (remdups (rev xs))"
  by (induction xs rule: rev_induct) (simp add: first_seen_def, simp add: first_seen_snoc set_first_seen)

lemma odict_set_absent:
  "k \<notin> fst ` set m \<Longrightarrow> odict_set k v m = m @ [(k, v)]"
  by (induction m) auto

lemma odict_set_present:
  "k \<in> set ds \<Longrightarrow> distinct ds \<Longrightarrow>
   odict_set k v (map (\<lambda>d. (d, f d)) ds) = map (\<lambda>d. (d, if d = k then v else f d)) ds"
  by (induction ds) auto

lemma map_of_keyed:
  "map_of (map (\<lambda>d. (d, f d)) ds) k = (if k \<in> set ds then Some (f k) else None)"
  by (induction ds) auto

lemma map_of_merged_dict:
  "map_of (merged_dict cs) d = (if d \<in> doi ` set cs then Some (merged_record d cs) else None)"
  by (simp add: merged_dict_def map_of_keyed set_first_seen)

lemma merged_record_other:
  "doi c \<noteq> d \<Longrightarrow> merged_record d (prev @ [c]) = merged_record d prev"
  by (simp add: merged_record_def)

lemma merged_record_new:
  "doi c \<notin> doi ` set prev \<Longrightarrow> merged_record (doi c) (prev @ [c]) = c"
proof -
  assume "doi c \<notin> doi ` set prev"
  then have "\<forall>x \<in> set prev. doi x \<noteq> doi c" by (metis imageI)
  then have "filter (\<lambda>x. doi x = doi c) prev = []" by (simp add: filter_empty_conv)
  then show ?thesis by (simp add: merged_record_def)
qed

lemma merged_record_again:
  "doi c \<in> doi ` set prev \<Longrightarrow>
   merged_record (doi c) (prev @ [c]) = backfill (merged_record (doi c) prev) c"
proof -
  assume "doi c \<in> doi ` set prev"
  then have "filter (\<lambda>x. doi x = doi c) prev \<noteq> []" by (auto simp add: filter_empty_conv)
  then show ?thesis by (simp add: merged_record_def Let_def)
qed

lemma merged_dict_step_new:
  assumes "doi c \<notin> doi ` set prev"
  shows "odict_set (doi c) c (merged_dict prev) = merged_dict (prev @ [c])"
proof -
  have k: "doi c \<notin> fst ` set (merged_dict prev)"
    using assms by (auto simp add: merged_dict_def set_first_seen)
  have s: "first_seen (map doi prev @ [doi c]) = first_seen (map doi prev) @ [doi c]"
    using assms by (simp add: first_seen_snoc set_first_seen)
  have n: "\<forall>x \<in> set prev. doi c \<noteq> doi x" using assms by (metis imageI)
  have "map (\<lambda>d. (d, merged_record d (prev @ [c]))) (first_seen (map doi prev))
      = map (\<lambda>d. (d, merged_record d prev)) (first_seen (map doi prev))"
    using n by (auto simp add: set_first_seen merged_record_other)
  then have "merged_dict (prev @ [c]) = merged_dict prev @ [(doi c, c)]"
    using assms by (simp add: merged_dict_def s merged_record_new)
  then show ?thesis using k by (simp add: odict_set_absent)
qed

lemma merged_dict_step_again:
  assumes "doi c \<in> doi ` set prev"
  shows "odict_set (doi c) (backfill (merged_record (doi c) prev) c) (merged_dict prev) =
     merged_dict (prev @ [c])"
proof -
  have s: "first_seen (map doi prev @ [doi c]) = first_seen (map doi prev)"
    using assms by (simp add: first_seen_snoc set_first_seen)
  have "odict_set (doi c) (backfill (merged_record (doi c) prev) c) (merged_dict prev) =
      map (\<lambda>d. (d, if d = doi c then backfill (merged_record (doi c) prev) c
                     else merged_record d prev)) (first_seen (map doi prev))"
    unfolding merged_dict_def using assms
    by (intro odict_set_present) (simp_all add: set_first_seen distinct_first_seen)
  also have "\<dots> = map (\<lambda>d. (d, merged_record d (prev @ [c]))) (first_seen (map doi prev))"
    using assms by (auto simp add: merged_record_again merged_record_other)
  finally show ?thesis by (simp add: merged_dict_def s)
qed

lemma add_to_merged_dict:
  "add_to_merged cs (merged_dict prev) = merged_dict (prev @ cs)"
proof (induction cs arbitrary: prev)
  case Nil
  show ?case by simp
next
  case (Cons c cs)
  have "add_to_merged (c # cs) (merged_dict prev) = add_to_merged cs (merged_dict (prev @ [c]))"
  proof (cases "doi c \<in> doi ` set prev")
    case True
    then show ?thesis
      by (simp add: map_of_merged_dict merged_dict_step_again)
  next
    case False
    then show ?thesis
      by (simp add: map_of_merged_dict merged_dict_step_new)
  qed
  then show ?case using Cons.IH [of "prev @ [c]"] by simp
qed

lemma merge_citations_eq:
  "merge_citations xs ys =
     map (\<lambda>d. merged_record d (xs @ ys)) (first_seen (map doi (xs @ ys)))"
proof -
  have e: "merged_dict [] = []" by (simp add: merged_dict_def first_seen_def)
  have "add_to_merged xs [] = merged_dict xs"
    using add_to_merged_dict [of xs "[]"] by (simp add: e)
  then have "add_to_merged ys (add_to_merged xs []) = merged_dict (xs @ ys)"
    by (simp add: add_to_merged_dict)
  then show ?thesis by (simp add: merge_citations_def merged_dict_def comp_def)
qed

lemma backfill_fields:
  "doi (backfill e c) = doi e"
  "source (backfill e c) = source e"
  "title (backfill e c) = (if \<not> truthy (title e) \<and> truthy (title c) then title c else title e)"
  "authors (backfill e c) = (if authors e = [] \<and> authors c \<noteq> [] then authors c else authors e)"
  "year (backfill e c) = (if year e = [] \<and> year c \<noteq> [] then year c else year e)"
  by (simp_all add: backfill_def Let_def)

lemma foldl_backfill_key:
  "doi (foldl backfill f later) = doi f \<and> source (foldl backfill f later) = source f"
  by (induction later arbitrary: f) (simp_all add: backfill_fields)

lemma foldl_backfill_title:
  "title (foldl backfill f later) = backfilled truthy (title f) (map title later)"
  by (induction later arbitrary: f) (simp_all add: backfill_fields backfilled_def split: option.splits)

lemma foldl_backfill_authors:
  "authors (foldl backfill f later) = backfilled (\<lambda>a. a \<noteq> []) (authors f) (map authors later)"
  by (induction later arbitrary: f) (simp_all add: backfill_fields backfilled_def split: option.splits)

lemma foldl_backfill_year:
  "year (foldl backfill f later) = backfilled (\<lambda>y. y \<noteq> []) (year f) (map year later)"
  by (induction later arbitrary: f) (simp_all add: backfill_fields backfilled_def split: option.splits)

lemma filter_doi_nonempty:
  "d \<in> doi ` set cs \<Longrightarrow> \<exists>f later. filter (\<lambda>c. doi c = d) cs = f # later \<and> doi f = d"
proof -
  assume "d \<in> doi ` set cs"
  then obtain c where "c \<in> set cs" and "doi c = d" by auto
  then have "c \<in> set (filter (\<lambda>c. doi c = d) cs)" by simp
  then obtain f later where e: "filter (\<lambda>c. doi c = d) cs = f # later"
    by (cases "filter (\<lambda>c. doi c = d) cs") auto
  then have "f \<in> set (filter (\<lambda>c. doi c = d) cs)" by simp
  then have "doi f = d" by simp
  with e show ?thesis by blast
qed

lemma doi_merged_record: "d \<in> doi ` set cs \<Longrightarrow> doi (merged_record d cs) = d"
proof -
  assume "d \<in> doi ` set cs"
  then obtain f later where "filter (\<lambda>c. doi c = d) cs = f # later" and "doi f = d"
    using filter_doi_nonempty by blast
  then show ?thesis by (simp add: merged_record_def foldl_backfill_key)
qed

lemma map_doi_merge_citations:
  "map doi (merge_citations xs ys) = first_seen (map doi (xs @ ys))"
proof -
  have "map doi (merge_citations xs ys) =
      map (\<lambda>d. doi (merged_record d (xs @ ys))) (first_seen (map doi (xs @ ys)))"
    by (simp add: merge_citations_eq comp_def)
  also have "\<dots> = map (\<lambda>d. d) (first_seen (map doi (xs @ ys)))"
  proof (rule map_cong [OF refl])
    fix d
    assume "d \<in> set (first_seen (map doi (xs @ ys)))"
    then have "d \<in> doi ` set (xs @ ys)" by (simp add: set_first_seen image_Un)
    then show "doi (merged_record d (xs @ ys)) = d" by (rule doi_merged_record)
  qed
  finally show ?thesis by simp
qed

lemma filter_distinct_key:
  "distinct (map k xs) \<Longrightarrow> x \<in> set xs \<Longrightarrow> filter (\<lambda>y. k y = k x) xs = [x]"
proof (induction xs)
  case Nil
  then show ?case by simp
next
  case (Cons a xs)
  from Cons.prems(1) have n: "k a \<notin> k ` set xs" and dx: "distinct (map k xs)" by simp_all
  show ?case
  proof (cases "x = a")
    case True
    have "\<forall>y \<in> set xs. k y \<noteq> k a"
    proof
      fix y
      assume "y \<in> set xs"
      then have "k y \<in> k ` set xs" by (rule imageI)
      with n show "k y \<noteq> k a" by metis
    qed
    then have "filter (\<lambda>y. k y = k a) xs = []"
      by (simp add: filter_empty_conv)
    then show ?thesis using True by simp
  next
    case False
    with Cons.prems(2) have x: "x \<in> set xs" by simp
    then have "k x \<in> k ` set xs" by (rule imageI)
    with n have "k a \<noteq> k x" by auto
    moreover have "filter (\<lambda>y. k y = k x) xs = [x]" using dx x by (rule Cons.IH)
    ultimately show ?thesis by simp
  qed
qed

text \<open>
  Claim C2. For every pair of input lists, the identifiers of the output of
  \<open>merge_citations\<close> are distinct, and they stand in first-insertion order: the order
  in which each identifier was first seen in the first list followed by the second
  (\<open>first_seen\<close>; the same list is the library's \<open>remdups\<close>, which keeps the last
  occurrence of each value, applied to the reversed input and reversed again).
\<close>

theorem merge_citations_unique_first_seen:
  "distinct (map doi (merge_citations xs ys)) \<and>
   map doi (merge_citations xs ys) = first_seen (map doi (xs @ ys)) \<and>
   map doi (merge_citations xs ys) = rev (remdups (rev (map doi (xs @ ys))))"
  using distinct_first_seen [of "map doi (xs @ ys)"] first_seen_remdups [of "map doi (xs @ ys)"]
  by (simp only: map_doi_merge_citations simp_thms)

text \<open>
  Claim C1. Every record \<open>c\<close> of the two lists is merged into exactly one record \<open>r\<close>
  of the output, the one with the identifier of \<open>c\<close>. With \<open>f\<close> the first-inserted record
  with that identifier and \<open>later\<close> the records with it that come after \<open>f\<close> (in the
  first list followed by the second): \<open>r\<close> has the source tag of \<open>f\<close>, and each of its
  title, authors and year is the value of \<open>f\<close> when that is not empty, and else the first
  value that is not empty among the later records (\<open>f\<close>'s own empty value when there is
  none). So for every pair of records with one identifier, a field of the first-inserted
  record that is not empty is kept, and a later record only fills a field that is empty.
\<close>

theorem merge_citations_keeps_first_inserted:
  assumes "c \<in> set (xs @ ys)"
  shows "\<exists>r f later.
     r \<in> set (merge_citations xs ys) \<and>
     filter (\<lambda>x. doi x = doi c) (merge_citations xs ys) = [r] \<and>
     filter (\<lambda>x. doi x = doi c) (xs @ ys) = f # later \<and>
     doi r = doi c \<and>
     doi f = doi c \<and>
     source r = source f \<and>
     title r = backfilled truthy (title f) (map title later) \<and>
     authors r = backfilled (\<lambda>a. a \<noteq> []) (authors f) (map authors later) \<and>
     year r = backfilled (\<lambda>y. y \<noteq> []) (year f) (map year later) \<and>
     (truthy (title f) \<longrightarrow> title r = title f) \<and>
     (authors f \<noteq> [] \<longrightarrow> authors r = authors f) \<and>
     (year f \<noteq> [] \<longrightarrow> year r = year f)"
proof -
  let ?all = "xs @ ys"
  define d where "d = doi c"
  define r where "r = merged_record d ?all"
  from assms have d: "d \<in> doi ` set ?all" unfolding d_def by (rule imageI)
  then have "d \<in> set (map doi ?all)" by (simp only: set_map)
  then have "d \<in> set (first_seen (map doi ?all))" by (simp only: set_first_seen)
  then have "(\<lambda>d. merged_record d ?all) d \<in>
      (\<lambda>d. merged_record d ?all) ` set (first_seen (map doi ?all))"
    by (rule imageI)
  then have m: "r \<in> set (merge_citations xs ys)"
    by (simp only: r_def merge_citations_eq set_map)
  from d have dr: "doi r = d" unfolding r_def by (rule doi_merged_record)
  have "distinct (map doi (merge_citations xs ys))"
    by (simp only: map_doi_merge_citations distinct_first_seen)
  then have "filter (\<lambda>x. doi x = doi r) (merge_citations xs ys) = [r]"
    using m by (rule filter_distinct_key)
  then have u: "filter (\<lambda>x. doi x = d) (merge_citations xs ys) = [r]" by (simp only: dr)
  from filter_doi_nonempty [OF d] obtain f later
    where fd: "filter (\<lambda>c. doi c = d) ?all = f # later" and df: "doi f = d" by blast
  have e: "r = foldl backfill f later"
    unfolding r_def merged_record_def Let_def fd by simp
  have t: "title r = backfilled truthy (title f) (map title later)"
    unfolding e by (rule foldl_backfill_title)
  have a: "authors r = backfilled (\<lambda>a. a \<noteq> []) (authors f) (map authors later)"
    unfolding e by (rule foldl_backfill_authors)
  have y: "year r = backfilled (\<lambda>y. y \<noteq> []) (year f) (map year later)"
    unfolding e by (rule foldl_backfill_year)
  have s: "source r = source f" unfolding e using foldl_backfill_key by blast
  have t1: "truthy (title f) \<longrightarrow> title r = title f" unfolding t by (simp add: backfilled_def)
  have a1: "authors f \<noteq> [] \<longrightarrow> authors r = authors f" unfolding a by (simp add: backfilled_def)
  have y1: "year f \<noteq> [] \<longrightarrow> year r = year f" unfolding y by (simp add: backfilled_def)
  from m u fd dr df s t a y t1 a1 y1 show ?thesis unfolding d_def by blast
qed

text \<open>The theorem at lists that share an identifier across and within them.\<close>

theorem merge_citations_unique_first_seen_witness:
  "map doi (merge_citations [record_x] [record_b, record_y]) = [''10.1234/a'', ''10.1234/b''] \<and>
   distinct (map doi (merge_citations [record_x] [record_b, record_y]))"
proof -
  have "first_seen (map doi ([record_x] @ [record_b, record_y])) = [''10.1234/a'', ''10.1234/b'']"
    by code_simp
  with merge_citations_unique_first_seen [of "[record_x]" "[record_b, record_y]"]
  show ?thesis by metis
qed

text \<open>
  The theorem at the record with the title \<open>Y\<close>, authors and a year, which comes after a
  record of the same identifier with the title \<open>X\<close> and no authors or year: in the one
  merged record the title and the source of the first stay, the authors and the year are
  filled from the later record.
\<close>

theorem merge_citations_keeps_first_inserted_witness:
  "merge_citations [record_x] [record_b, record_y] =
     [record_x\<lparr>authors := [JStr ''Z''], year := ''2020''\<rparr>, record_b] \<and>
   title (record_x\<lparr>authors := [JStr ''Z''], year := ''2020''\<rparr>) = JStr ''X'' \<and>
   source (record_x\<lparr>authors := [JStr ''Z''], year := ''2020''\<rparr>) = ''OpenAlex''"
proof -
  let ?r = "record_x\<lparr>authors := [JStr ''Z''], year := ''2020''\<rparr>"
  have m: "merge_citations [record_x] [record_b, record_y] = [?r, record_b]" by code_simp
  have "record_y \<in> set ([record_x] @ [record_b, record_y])" by simp
  from merge_citations_keeps_first_inserted [OF this] obtain r f later
    where u: "filter (\<lambda>x. doi x = doi record_y) (merge_citations [record_x] [record_b, record_y]) = [r]"
      and fl: "filter (\<lambda>x. doi x = doi record_y) ([record_x] @ [record_b, record_y]) = f # later"
      and s: "source r = source f" and t: "truthy (title f) \<longrightarrow> title r = title f"
    by blast
  have "filter (\<lambda>x. doi x = doi record_y) [?r, record_b] = [?r]" by code_simp
  with u m have r: "r = ?r" by simp
  have "filter (\<lambda>x. doi x = doi record_y) ([record_x] @ [record_b, record_y]) = [record_x, record_y]"
    by code_simp
  with fl have f: "f = record_x" by simp
  have "truthy (title record_x)" by code_simp
  with t f r have "title ?r = title record_x" by simp
  moreover have "title record_x = JStr ''X''" by code_simp
  moreover have "source record_x = ''OpenAlex''" by code_simp
  ultimately show ?thesis using m s f r by simp
qed

section \<open>Properties of the fetcher\<close>

declare make_request_from.simps [simp del]

lemma make_request_from_done:
  "\<not> attempt < retry \<Longrightarrow> make_request_from url params retry attempt w = (JNull, w)"
  by (subst make_request_from.simps) simp

lemma make_request_from_200:
  "attempt < retry \<Longrightarrow> pending w 0 = Response 200 body (Some decoded) \<Longrightarrow>
   make_request_from url params retry attempt w = (decoded, snd (http_get url params w))"
  by (subst make_request_from.simps) (simp add: http_get_def)

lemma make_request_from_404:
  "attempt < retry \<Longrightarrow> pending w 0 = Response 404 body decoded \<Longrightarrow>
   make_request_from url params retry attempt w = (JNull, snd (http_get url params w))"
  by (subst make_request_from.simps) (simp add: http_get_def)

lemma make_request_from_retry:
  assumes "attempt < retry" and "retryable (pending w 0)"
  shows "make_request_from url params retry attempt w =
     make_request_from url params retry (Suc attempt)
       (sleep (backoff attempt (pending w 0)) (snd (http_get url params w)))"
proof (cases "pending w 0")
  case (Response status_code body decoded)
  with assms show ?thesis
    by (subst make_request_from.simps) (auto simp add: http_get_def)
next
  case (Raises e)
  with assms show ?thesis
    by (subst make_request_from.simps) (cases e; simp add: http_get_def)
qed

lemma not_retryable:
  "\<not> retryable x \<Longrightarrow>
   (\<exists>body decoded. x = Response 200 body (Some decoded)) \<or> (\<exists>body decoded. x = Response 404 body decoded)"
  by (cases x) (auto split: if_splits)


lemma failed_attempts_0: "failed_attempts url params attempt 0 w = []"
  by (simp add: failed_attempts_def)

lemma upt_0_Suc: "[0..<Suc k] = 0 # map Suc [0..<k]"
proof -
  have "[0..<Suc k] = 0 # [Suc 0..<Suc k]" by (rule upt_conv_Cons) simp
  also have "[Suc 0..<Suc k] = map Suc [0..<k]" by (rule map_Suc_upt [symmetric])
  finally show ?thesis .
qed

lemma failed_attempts_Suc:
  "failed_attempts url params attempt (Suc k) w =
     [Get url params, Sleep (backoff attempt (pending w 0))] @
     failed_attempts url params (Suc attempt) k
       (sleep (backoff attempt (pending w 0)) (snd (http_get url params w)))"
proof -
  let ?w1 = "sleep (backoff attempt (pending w 0)) (snd (http_get url params w))"
  have p: "pending ?w1 = (\<lambda>n. pending w (Suc n))" by (simp add: sleep_def http_get_def)
  have "failed_attempts url params attempt (Suc k) w =
      concat (map (\<lambda>j. [Get url params, Sleep (backoff (attempt + j) (pending w j))])
        (0 # map Suc [0..<k]))"
    unfolding failed_attempts_def upt_0_Suc ..
  also have "\<dots> = [Get url params, Sleep (backoff attempt (pending w 0))] @
      concat (map (\<lambda>j. [Get url params, Sleep (backoff (Suc attempt + j) (pending w (Suc j)))])
        [0..<k])"
    by (simp add: comp_def del: upt_Suc)
  also have "concat (map (\<lambda>j. [Get url params, Sleep (backoff (Suc attempt + j) (pending w (Suc j)))])
        [0..<k]) = failed_attempts url params (Suc attempt) k ?w1"
    unfolding failed_attempts_def p ..
  finally show ?thesis .
qed

lemma make_request_from_retries:
  assumes "\<forall>j<k. retryable (pending w j)" and "attempt + k \<le> retry"
  shows "make_request_from url params retry attempt w =
     make_request_from url params retry (attempt + k)
       (w\<lparr>pending := (\<lambda>n. pending w (n + k)),
          trace := trace w @ failed_attempts url params attempt k w\<rparr>)"
  using assms
proof (induction k arbitrary: attempt w)
  case 0
  show ?case by (simp add: failed_attempts_0)
next
  case (Suc k)
  let ?w1 = "sleep (backoff attempt (pending w 0)) (snd (http_get url params w))"
  from Suc.prems have r: "retryable (pending w 0)" and a: "attempt < retry" by auto
  have p: "pending ?w1 = (\<lambda>n. pending w (Suc n))" by (simp add: sleep_def http_get_def)
  have t: "trace ?w1 = trace w @ [Get url params, Sleep (backoff attempt (pending w 0))]"
    by (simp add: sleep_def http_get_def)
  from Suc.prems have "\<forall>j<k. retryable (pending ?w1 j)" by (simp add: p)
  moreover from Suc.prems have "Suc attempt + k \<le> retry" by simp
  ultimately have "make_request_from url params retry (Suc attempt) ?w1 =
     make_request_from url params retry (Suc attempt + k)
       (?w1\<lparr>pending := (\<lambda>n. pending ?w1 (n + k)),
          trace := trace ?w1 @ failed_attempts url params (Suc attempt) k ?w1\<rparr>)"
    by (rule Suc.IH)
  moreover have "?w1\<lparr>pending := (\<lambda>n. pending ?w1 (n + k)),
          trace := trace ?w1 @ failed_attempts url params (Suc attempt) k ?w1\<rparr> =
      w\<lparr>pending := (\<lambda>n. pending w (n + Suc k)),
          trace := trace w @ failed_attempts url params attempt (Suc k) w\<rparr>"
    unfolding failed_attempts_Suc p t by (simp add: sleep_def http_get_def)
  ultimately show ?case
    using make_request_from_retry [OF a r, of url params] by simp
qed

lemma gets_http_get: "gets (snd (http_get url params w)) = Suc (gets w)"
  by (simp add: gets_def http_get_def)

lemma gets_sleep: "gets (sleep n w) = gets w"
  by (simp add: gets_def sleep_def)

lemma pauses_http_get: "pauses (snd (http_get url params w)) = pauses w"
  by (simp add: pauses_def http_get_def)

lemma pauses_sleep: "pauses (sleep n w) = pauses w"
  by (simp add: pauses_def sleep_def)

lemma counts_make_request_from:
  "gets (snd (make_request_from url params retry attempt w)) \<le> gets w + (retry - attempt) \<and>
   pauses (snd (make_request_from url params retry attempt w)) = pauses w"
proof (induction "retry - attempt" arbitrary: attempt w)
  case 0
  then have "\<not> attempt < retry" by simp
  then show ?case by (simp add: make_request_from_done)
next
  case (Suc n)
  then have a: "attempt < retry" by simp
  show ?case
  proof (cases "retryable (pending w 0)")
    case True
    let ?w1 = "sleep (backoff attempt (pending w 0)) (snd (http_get url params w))"
    from Suc.hyps(2) have "n = retry - Suc attempt" by simp
    then have ih: "gets (snd (make_request_from url params retry (Suc attempt) ?w1))
        \<le> gets ?w1 + (retry - Suc attempt) \<and>
      pauses (snd (make_request_from url params retry (Suc attempt) ?w1)) = pauses ?w1"
      by (rule Suc.hyps(1))
    have g: "gets ?w1 = Suc (gets w)" by (simp add: gets_sleep gets_http_get)
    have z: "pauses ?w1 = pauses w" by (simp add: pauses_sleep pauses_http_get)
    from ih have "gets (snd (make_request_from url params retry (Suc attempt) ?w1))
        \<le> Suc (gets w) + (retry - Suc attempt)" by (simp only: g)
    with a have "gets (snd (make_request_from url params retry (Suc attempt) ?w1))
        \<le> gets w + (retry - attempt)" by arith
    moreover from ih have "pauses (snd (make_request_from url params retry (Suc attempt) ?w1))
        = pauses w" by (simp only: z)
    ultimately show ?thesis
      by (simp only: make_request_from_retry [OF a True] simp_thms)
  next
    case False
    then consider body decoded where "pending w 0 = Response 200 body (Some decoded)"
      | body decoded where "pending w 0 = Response 404 body decoded"
      using not_retryable by blast
    then show ?thesis
    proof cases
      case 1
      from a show ?thesis
        by (simp add: make_request_from_200 [OF a 1] gets_http_get pauses_http_get)
    next
      case 2
      from a show ?thesis
        by (simp add: make_request_from_404 [OF a 2] gets_http_get pauses_http_get)
    qed
  qed
qed


lemma result_make_request_from:
  "fst (make_request_from url params retry attempt w) = JNull \<or>
   (\<exists>k body. attempt + k < retry \<and>
      pending w k = Response 200 body (Some (fst (make_request_from url params retry attempt w))))"
proof (induction "retry - attempt" arbitrary: attempt w)
  case 0
  then have "\<not> attempt < retry" by simp
  then show ?case by (simp add: make_request_from_done)
next
  case (Suc n)
  then have a: "attempt < retry" by simp
  show ?case
  proof (cases "retryable (pending w 0)")
    case True
    let ?w1 = "sleep (backoff attempt (pending w 0)) (snd (http_get url params w))"
    let ?r = "fst (make_request_from url params retry (Suc attempt) ?w1)"
    have p: "pending ?w1 = (\<lambda>n. pending w (Suc n))" by (simp add: sleep_def http_get_def)
    from Suc.hyps(2) have "n = retry - Suc attempt" by simp
    then have "?r = JNull \<or>
      (\<exists>k body. Suc attempt + k < retry \<and> pending ?w1 k = Response 200 body (Some ?r))"
      by (rule Suc.hyps(1))
    then have "?r = JNull \<or>
      (\<exists>k body. attempt + k < retry \<and> pending w k = Response 200 body (Some ?r))"
    proof
      assume "?r = JNull"
      then show ?thesis ..
    next
      assume "\<exists>k body. Suc attempt + k < retry \<and> pending ?w1 k = Response 200 body (Some ?r)"
      then obtain k body where "Suc attempt + k < retry"
        and "pending w (Suc k) = Response 200 body (Some ?r)"
        unfolding p by blast
      then have "attempt + Suc k < retry \<and> pending w (Suc k) = Response 200 body (Some ?r)"
        by simp
      then show ?thesis by blast
    qed
    then show ?thesis by (simp only: make_request_from_retry [OF a True])
  next
    case False
    then consider body decoded where "pending w 0 = Response 200 body (Some decoded)"
      | body decoded where "pending w 0 = Response 404 body decoded"
      using not_retryable by blast
    then show ?thesis
    proof cases
      case 1
      have "attempt + 0 < retry \<and> pending w 0 = Response 200 body (Some decoded)"
        using a 1 by simp
      then show ?thesis unfolding make_request_from_200 [OF a 1] fst_conv by blast
    next
      case 2
      show ?thesis by (simp add: make_request_from_404 [OF a 2])
    qed
  qed
qed

lemma nth_failed_attempts:
  "j < k \<Longrightarrow>
   failed_attempts url params attempt k w ! (2 * j + 1) =
     Sleep (backoff (attempt + j) (pending w j))"
proof (induction k arbitrary: attempt w j)
  case 0
  then show ?case by simp
next
  case (Suc k)
  let ?w1 = "sleep (backoff attempt (pending w 0)) (snd (http_get url params w))"
  have p: "pending ?w1 = (\<lambda>n. pending w (Suc n))" by (simp add: sleep_def http_get_def)
  show ?case
  proof (cases j)
    case 0
    then show ?thesis by (simp add: failed_attempts_Suc)
  next
    case (Suc i)
    with Suc.prems have "i < k" by simp
    then have "failed_attempts url params (Suc attempt) k ?w1 ! (2 * i + 1) =
        Sleep (backoff (Suc attempt + i) (pending ?w1 i))"
      by (rule Suc.IH)
    then show ?thesis unfolding p by (simp add: failed_attempts_Suc Suc)
  qed
qed

text \<open>
  Claim C5. \<open>make_request\<close> is a total function of the outcomes of the network:
  whatever they are (statuses, timeouts, transport errors, bodies that do not decode), it
  returns a value after at most \<open>retry\<close> GETs, and the value is \<open>None\<close> or the decoded
  body of a 200. A 404 at the first attempt gives \<open>None\<close> after that one GET, with no
  sleep and no further attempt. So does a 404 at any attempt that is made, the one with
  the index \<open>k\<close> (from 0) within the budget, after attempts that all end in outcomes
  after which the loop goes on: the result is \<open>None\<close>, the GET of that attempt is the
  last event, and the outcomes after it are left unread. A 200 that decodes, at such an
  attempt, gives its decoded body in the same way. When no attempt ends in a 200 that
  decodes or in a 404, the result is \<open>None\<close>, after \<open>retry\<close> attempts (3 by default,
  \<open>RETRY_COUNT\<close>). Every sequence of outcomes is of one of these three kinds.
\<close>

theorem make_request_null_on_failure:
  "gets (snd (make_request url params retry w)) \<le> gets w + retry \<and>
   (fst (make_request url params retry w) = JNull \<or>
    (\<exists>k body. k < retry \<and>
       pending w k = Response 200 body (Some (fst (make_request url params retry w))))) \<and>
   (0 < retry \<and> pending w 0 = Response 404 body0 decoded0 \<longrightarrow>
      make_request url params retry w =
        (JNull, w\<lparr>pending := (\<lambda>n. pending w (Suc n)), trace := trace w @ [Get url params]\<rparr>)) \<and>
   (k < retry \<and> (\<forall>j<k. retryable (pending w j)) \<and> pending w k = Response 404 body decoded \<longrightarrow>
      make_request url params retry w =
        (JNull, w\<lparr>pending := (\<lambda>n. pending w (n + Suc k)),
                  trace := trace w @ failed_attempts url params 0 k w @ [Get url params]\<rparr>)) \<and>
   (k < retry \<and> (\<forall>j<k. retryable (pending w j)) \<and>
    pending w k = Response 200 body (Some answer) \<longrightarrow>
      make_request url params retry w =
        (answer, w\<lparr>pending := (\<lambda>n. pending w (n + Suc k)),
                  trace := trace w @ failed_attempts url params 0 k w @ [Get url params]\<rparr>)) \<and>
   ((\<forall>k<retry. retryable (pending w k)) \<longrightarrow>
      make_request url params retry w =
        (JNull, w\<lparr>pending := (\<lambda>n. pending w (n + retry)),
                  trace := trace w @ failed_attempts url params 0 retry w\<rparr>)) \<and>
   ((\<forall>k<retry. retryable (pending w k)) \<or>
    (\<exists>k<retry. (\<forall>j<k. retryable (pending w j)) \<and>
       ((\<exists>body decoded. pending w k = Response 404 body decoded) \<or>
        (\<exists>body answer. pending w k = Response 200 body (Some answer)))))"
proof (intro conjI impI)
  show "gets (snd (make_request url params retry w)) \<le> gets w + retry"
    using counts_make_request_from [of url params retry 0 w] by (simp add: make_request_def)
  show "fst (make_request url params retry w) = JNull \<or>
    (\<exists>k body. k < retry \<and>
       pending w k = Response 200 body (Some (fst (make_request url params retry w))))"
    using result_make_request_from [of url params retry 0 w] by (simp add: make_request_def)
  show "(\<forall>k<retry. retryable (pending w k)) \<or>
    (\<exists>k<retry. (\<forall>j<k. retryable (pending w j)) \<and>
       ((\<exists>body decoded. pending w k = Response 404 body decoded) \<or>
        (\<exists>body answer. pending w k = Response 200 body (Some answer))))"
  proof (cases "\<forall>k<retry. retryable (pending w k)")
    case True
    then show ?thesis ..
  next
    case False
    define i where "i = (LEAST k. \<not> retryable (pending w k))"
    from False obtain k0 where k0: "k0 < retry" "\<not> retryable (pending w k0)" by blast
    from k0(2) have n: "\<not> retryable (pending w i)" unfolding i_def by (rule LeastI)
    from k0(2) have "i \<le> k0" unfolding i_def by (rule Least_le)
    with k0(1) have b: "i < retry" by simp
    have "\<forall>j<i. retryable (pending w j)"
    proof (intro allI impI)
      fix j
      assume "j < i"
      then show "retryable (pending w j)" unfolding i_def using not_less_Least by blast
    qed
    moreover from n have "(\<exists>body decoded. pending w i = Response 404 body decoded) \<or>
        (\<exists>body answer. pending w i = Response 200 body (Some answer))"
      using not_retryable by blast
    ultimately show ?thesis using b by blast
  qed
next
  assume "0 < retry \<and> pending w 0 = Response 404 body0 decoded0"
  then have a: "0 < retry" and p: "pending w 0 = Response 404 body0 decoded0" by simp_all
  show "make_request url params retry w =
      (JNull, w\<lparr>pending := (\<lambda>n. pending w (Suc n)), trace := trace w @ [Get url params]\<rparr>)"
    unfolding make_request_def make_request_from_404 [OF a p] by (simp add: http_get_def)
next
  assume h: "k < retry \<and> (\<forall>j<k. retryable (pending w j)) \<and>
    pending w k = Response 404 body decoded"
  let ?wk = "w\<lparr>pending := (\<lambda>n. pending w (n + k)),
     trace := trace w @ failed_attempts url params 0 k w\<rparr>"
  from h have between: "\<forall>j<k. retryable (pending w j)" by simp
  have "0 + k \<le> retry" using h by simp
  from make_request_from_retries [OF between this, of url params]
  have "make_request_from url params retry 0 w = make_request_from url params retry k ?wk"
    by simp
  moreover have "pending ?wk 0 = Response 404 body decoded" using h by simp
  ultimately have m: "make_request url params retry w = (JNull, snd (http_get url params ?wk))"
    using h by (simp add: make_request_def make_request_from_404)
  show "make_request url params retry w =
      (JNull, w\<lparr>pending := (\<lambda>n. pending w (n + Suc k)),
                trace := trace w @ failed_attempts url params 0 k w @ [Get url params]\<rparr>)"
    unfolding m by (simp add: http_get_def)
next
  assume h: "k < retry \<and> (\<forall>j<k. retryable (pending w j)) \<and>
    pending w k = Response 200 body (Some answer)"
  let ?wk = "w\<lparr>pending := (\<lambda>n. pending w (n + k)),
     trace := trace w @ failed_attempts url params 0 k w\<rparr>"
  from h have between: "\<forall>j<k. retryable (pending w j)" by simp
  have "0 + k \<le> retry" using h by simp
  from make_request_from_retries [OF between this, of url params]
  have "make_request_from url params retry 0 w = make_request_from url params retry k ?wk"
    by simp
  moreover have "pending ?wk 0 = Response 200 body (Some answer)" using h by simp
  ultimately have m: "make_request url params retry w = (answer, snd (http_get url params ?wk))"
    using h by (simp add: make_request_def make_request_from_200)
  show "make_request url params retry w =
      (answer, w\<lparr>pending := (\<lambda>n. pending w (n + Suc k)),
                trace := trace w @ failed_attempts url params 0 k w @ [Get url params]\<rparr>)"
    unfolding m by (simp add: http_get_def)
next
  assume r: "\<forall>k<retry. retryable (pending w k)"
  have "0 + retry \<le> retry" by simp
  from make_request_from_retries [OF r this, of url params]
  show "make_request url params retry w =
      (JNull, w\<lparr>pending := (\<lambda>n. pending w (n + retry)),
                trace := trace w @ failed_attempts url params 0 retry w\<rparr>)"
    by (simp add: make_request_def make_request_from_done)
qed

text \<open>
  Claim C9. The first attempt returns 429, and the attempt with the index \<open>k\<close> (from 0),
  within the budget, is made and returns a 200 that decodes: the attempts before it all
  end in outcomes after which the loop goes on. Then \<open>make_request\<close> returns the
  decoded body of that response. After every 429 among the attempts before, the next
  event is a sleep of five seconds times the number of the attempt counted from 1 (the
  index plus one), so the backoff grows with the attempts. The result is the one that
  \<open>make_request\<close> returns when the same response comes at once.
\<close>

theorem make_request_429_then_200:
  assumes first: "pending w 0 = Response 429 body0 decoded0"
    and later: "0 < k" "k < retry"
    and between: "\<forall>j<k. retryable (pending w j)"
    and ok: "pending w k = Response 200 body (Some decoded)"
  shows "make_request url params retry w =
      (decoded, w\<lparr>pending := (\<lambda>n. pending w (n + Suc k)),
                  trace := trace w @ failed_attempts url params 0 k w @ [Get url params]\<rparr>) \<and>
    (\<forall>j<k. \<forall>b d. pending w j = Response 429 b d \<longrightarrow>
       failed_attempts url params 0 k w ! (2 * j + 1) = Sleep ((j + 1) * 5)) \<and>
    (\<forall>v. pending v 0 = Response 200 body (Some decoded) \<longrightarrow>
       fst (make_request url params retry v) = fst (make_request url params retry w))"
proof -
  let ?wk = "w\<lparr>pending := (\<lambda>n. pending w (n + k)),
     trace := trace w @ failed_attempts url params 0 k w\<rparr>"
  have "0 + k \<le> retry" using later by simp
  from make_request_from_retries [OF between this, of url params]
  have "make_request_from url params retry 0 w = make_request_from url params retry k ?wk"
    by simp
  moreover have "pending ?wk 0 = Response 200 body (Some decoded)" using ok by simp
  ultimately have m: "make_request url params retry w = (decoded, snd (http_get url params ?wk))"
    using later(2) by (simp add: make_request_def make_request_from_200)
  have 1: "make_request url params retry w =
      (decoded, w\<lparr>pending := (\<lambda>n. pending w (n + Suc k)),
                  trace := trace w @ failed_attempts url params 0 k w @ [Get url params]\<rparr>)"
    unfolding m by (simp add: http_get_def)
  have 2: "\<forall>j<k. \<forall>b d. pending w j = Response 429 b d \<longrightarrow>
       failed_attempts url params 0 k w ! (2 * j + 1) = Sleep ((j + 1) * 5)"
  proof (intro allI impI)
    fix j b d
    assume "j < k" and p: "pending w j = Response 429 b d"
    then have "failed_attempts url params 0 k w ! (2 * j + 1) =
        Sleep (backoff (0 + j) (pending w j))"
      by (intro nth_failed_attempts)
    then show "failed_attempts url params 0 k w ! (2 * j + 1) = Sleep ((j + 1) * 5)"
      by (simp add: p)
  qed
  have 3: "\<forall>v. pending v 0 = Response 200 body (Some decoded) \<longrightarrow>
       fst (make_request url params retry v) = fst (make_request url params retry w)"
  proof (intro allI impI)
    fix v :: world
    assume "pending v 0 = Response 200 body (Some decoded)"
    moreover have "0 < retry" using later by simp
    ultimately have "make_request url params retry v = (decoded, snd (http_get url params v))"
      by (simp add: make_request_def make_request_from_200)
    then show "fst (make_request url params retry v) = fst (make_request url params retry w)"
      by (simp add: m)
  qed
  from 1 2 3 show ?thesis by blast
qed


text \<open>
  The theorem with the default of three attempts: at a network that answers 404, at one
  that answers 503 and then 404, and at one that answers 503, then times out, then sends
  a 200 that does not decode.
\<close>

theorem make_request_null_on_failure_witness:
  "make_request ''u'' None RETRY_COUNT \<lparr>pending = (\<lambda>n. Response 404 [] None), trace = []\<rparr> =
     (JNull, \<lparr>pending = (\<lambda>n. Response 404 [] None), trace = [Get ''u'' None]\<rparr>) \<and>
   make_request ''u'' None RETRY_COUNT
     \<lparr>pending = (\<lambda>n. if n = 0 then Response 503 [] None else if n = 1 then Response 404 [] None
                       else Response 200 ''[1]'' (Some (JArr [JNum 1]))),
      trace = []\<rparr> =
     (JNull,
      \<lparr>pending = (\<lambda>n. Response 200 ''[1]'' (Some (JArr [JNum 1]))),
       trace = [Get ''u'' None, Sleep 1, Get ''u'' None]\<rparr>) \<and>
   make_request ''u'' None RETRY_COUNT
     \<lparr>pending = (\<lambda>n. if n = 0 then Response 503 [] None else if n = 1 then Raises Timeout
                       else Response 200 ''<html>'' None),
      trace = []\<rparr> =
     (JNull,
      \<lparr>pending = (\<lambda>n. Response 200 ''<html>'' None),
       trace = [Get ''u'' None, Sleep 1, Get ''u'' None, Sleep 2, Get ''u'' None, Sleep 1]\<rparr>)"
proof -
  let ?a = "\<lparr>pending = (\<lambda>n. Response 404 [] None), trace = []\<rparr>"
  let ?b = "\<lparr>pending = (\<lambda>n. if n = 0 then Response 503 [] None else if n = 1 then Raises Timeout
                       else Response 200 ''<html>'' None), trace = []\<rparr>"
  let ?c = "\<lparr>pending = (\<lambda>n. if n = 0 then Response 503 [] None else if n = 1 then Response 404 [] None
                       else Response 200 ''[1]'' (Some (JArr [JNum 1]))), trace = []\<rparr>"
  have "0 < RETRY_COUNT \<and> pending ?a 0 = Response 404 [] None" by (simp add: RETRY_COUNT_def)
  with make_request_null_on_failure [of "''u''" None RETRY_COUNT ?a "[]" None]
  have 1: "make_request ''u'' None RETRY_COUNT ?a =
      (JNull, ?a\<lparr>pending := (\<lambda>n. pending ?a (Suc n)), trace := trace ?a @ [Get ''u'' None]\<rparr>)"
    by blast
  have "\<forall>k<RETRY_COUNT. retryable (pending ?b k)" by (simp add: RETRY_COUNT_def)
  with make_request_null_on_failure [of "''u''" None RETRY_COUNT ?b]
  have 2: "make_request ''u'' None RETRY_COUNT ?b =
      (JNull, ?b\<lparr>pending := (\<lambda>n. pending ?b (n + RETRY_COUNT)),
                trace := trace ?b @ failed_attempts ''u'' None 0 RETRY_COUNT ?b\<rparr>)"
    by blast
  have f: "failed_attempts ''u'' None 0 RETRY_COUNT ?b =
      [Get ''u'' None, Sleep 1, Get ''u'' None, Sleep 2, Get ''u'' None, Sleep 1]"
    by code_simp
  have p: "(\<lambda>n. pending ?b (n + RETRY_COUNT)) = (\<lambda>n. Response 200 ''<html>'' None)"
    by (rule ext) (simp add: RETRY_COUNT_def)
  have "1 < RETRY_COUNT \<and> (\<forall>j<1. retryable (pending ?c j)) \<and>
      pending ?c 1 = Response 404 [] None"
    by (simp add: RETRY_COUNT_def)
  with make_request_null_on_failure [where url = "''u''" and params = None and retry = RETRY_COUNT
      and w = ?c and k = 1 and body = "[]" and decoded = None]
  have 3: "make_request ''u'' None RETRY_COUNT ?c =
      (JNull, ?c\<lparr>pending := (\<lambda>n. pending ?c (n + Suc 1)),
                trace := trace ?c @ failed_attempts ''u'' None 0 1 ?c @ [Get ''u'' None]\<rparr>)"
    by blast
  have g: "failed_attempts ''u'' None 0 1 ?c = [Get ''u'' None, Sleep 1]"
    by code_simp
  have q: "(\<lambda>n. pending ?c (n + Suc 1)) = (\<lambda>n. Response 200 ''[1]'' (Some (JArr [JNum 1])))"
    by (rule ext) simp
  show ?thesis unfolding 1 2 3 f p g q by simp
qed

text \<open>
  The theorem at a network that answers 429 twice and then 200: sleeps of 5 and 10
  seconds, and the body that the immediate 200 gives.
\<close>

theorem make_request_429_then_200_witness:
  "make_request ''u'' None RETRY_COUNT
     \<lparr>pending = (\<lambda>n. if n < 2 then Response 429 [] None
                       else Response 200 ''[1]'' (Some (JArr [JNum 1]))),
      trace = []\<rparr> =
     (JArr [JNum 1],
      \<lparr>pending = (\<lambda>n. Response 200 ''[1]'' (Some (JArr [JNum 1]))),
       trace = [Get ''u'' None, Sleep 5, Get ''u'' None, Sleep 10, Get ''u'' None]\<rparr>) \<and>
   fst (make_request ''u'' None RETRY_COUNT
     \<lparr>pending = (\<lambda>n. Response 200 ''[1]'' (Some (JArr [JNum 1]))), trace = []\<rparr>) = JArr [JNum 1]"
proof -
  let ?w = "\<lparr>pending = (\<lambda>n. if n < 2 then Response 429 [] None
                       else Response 200 ''[1]'' (Some (JArr [JNum 1]))), trace = []\<rparr>"
  let ?v = "\<lparr>pending = (\<lambda>n. Response 200 ''[1]'' (Some (JArr [JNum 1]))), trace = []\<rparr>"
  have first: "pending ?w 0 = Response 429 [] None" by simp
  have later: "0 < (2::nat)" "2 < RETRY_COUNT" by (simp_all add: RETRY_COUNT_def)
  have between: "\<forall>j<2. retryable (pending ?w j)" by simp
  have ok: "pending ?w 2 = Response 200 ''[1]'' (Some (JArr [JNum 1]))" by simp
  note t = make_request_429_then_200 [OF first later between ok, of "''u''" None]
  from t have 1: "make_request ''u'' None RETRY_COUNT ?w =
      (JArr [JNum 1], ?w\<lparr>pending := (\<lambda>n. pending ?w (n + Suc 2)),
          trace := trace ?w @ failed_attempts ''u'' None 0 2 ?w @ [Get ''u'' None]\<rparr>)"
    by blast
  from t have "\<forall>v. pending v 0 = Response 200 ''[1]'' (Some (JArr [JNum 1])) \<longrightarrow>
      fst (make_request ''u'' None RETRY_COUNT v) = fst (make_request ''u'' None RETRY_COUNT ?w)"
    by blast
  then have "fst (make_request ''u'' None RETRY_COUNT ?v) = fst (make_request ''u'' None RETRY_COUNT ?w)"
    by simp
  then have 2: "fst (make_request ''u'' None RETRY_COUNT ?v) = JArr [JNum 1]"
    unfolding 1 by simp
  have f: "failed_attempts ''u'' None 0 2 ?w = [Get ''u'' None, Sleep 5, Get ''u'' None, Sleep 10]"
    by code_simp
  have p: "(\<lambda>n. pending ?w (n + Suc 2)) = (\<lambda>n. Response 200 ''[1]'' (Some (JArr [JNum 1])))"
    by (rule ext) simp
  show ?thesis unfolding 1 2 f p by simp
qed

section \<open>Properties of the orchestrator\<close>

lemma exn_cases: "e = KeyboardInterrupt \<or> e = Exception"
  by (cases e) simp_all

lemma main_loop_entries:
  "main_loop p n i ds results =
     foldl (\<lambda>r kv. odict_set (fst kv) (snd kv) r) results (entries p n i ds)"
proof (induction ds arbitrary: i results)
  case Nil
  show ?case by simp
next
  case (Cons d ds)
  show ?case
  proof (cases "p d i n")
    case (Inl e)
    then show ?thesis using Cons.IH by (cases e) simp_all
  next
    case (Inr citations)
    then show ?thesis using Cons.IH by simp
  qed
qed

lemma length_entries: "length (entries p n i ds) = completed p n i ds"
  by (induction ds arbitrary: i) simp_all

lemma completed_le: "completed p n i ds \<le> length ds"
  by (induction ds arbitrary: i) simp_all

lemma map_fst_entries: "map fst (entries p n i ds) = take (completed p n i ds) ds"
  by (induction ds arbitrary: i) simp_all

lemma nth_entries:
  "k < completed p n i ds \<Longrightarrow>
   entries p n i ds ! k = (ds ! k, recorded (p (ds ! k) (i + k) n)) \<and>
   p (ds ! k) (i + k) n \<noteq> Inl KeyboardInterrupt"
proof (induction ds arbitrary: i k)
  case Nil
  then show ?case by simp
next
  case (Cons d ds)
  from Cons.prems have c: "p d i n \<noteq> Inl KeyboardInterrupt" by (auto split: if_splits)
  show ?case
  proof (cases k)
    case 0
    with c show ?thesis by simp
  next
    case (Suc j)
    with Cons.prems c have "j < completed p n (i + 1) ds" by simp
    from Cons.IH [OF this] show ?thesis using c Suc by simp
  qed
qed

lemma completed_stops:
  "completed p n i ds < length ds \<Longrightarrow>
   p (ds ! completed p n i ds) (i + completed p n i ds) n = Inl KeyboardInterrupt"
proof (induction ds arbitrary: i)
  case Nil
  then show ?case by simp
next
  case (Cons d ds)
  show ?case
  proof (cases "p d i n = Inl KeyboardInterrupt")
    case True
    then show ?thesis by simp
  next
    case False
    with Cons.prems have "completed p n (i + 1) ds < length ds" by simp
    from Cons.IH [OF this] show ?thesis using False by simp
  qed
qed

lemma map_fst_odict_set:
  "map fst (odict_set k v r) = (if k \<in> set (map fst r) then map fst r else map fst r @ [k])"
proof (induction r)
  case Nil
  show ?case by simp
next
  case (Cons p r)
  obtain k' v' where p: "p = (k', v')" by (cases p)
  show ?case
  proof (cases "k' = k")
    case True
    then show ?thesis by (simp add: p)
  next
    case False
    then have "(k \<in> set (map fst (p # r))) = (k \<in> set (map fst r))" by (auto simp add: p)
    then show ?thesis using False Cons.IH by (simp add: p)
  qed
qed

lemma map_of_odict_set: "map_of (odict_set k v r) = (map_of r)(k \<mapsto> v)"
  by (induction r) (auto simp add: fun_eq_iff)

lemma keys_foldl_odict_set:
  "map fst (foldl (\<lambda>r kv. odict_set (fst kv) (snd kv) r) r kvs) =
     foldl (\<lambda>seen x. if x \<in> set seen then seen else seen @ [x]) (map fst r) (map fst kvs)"
  by (induction kvs arbitrary: r) (simp_all add: map_fst_odict_set)

lemma map_of_foldl_odict_set_other:
  "k \<notin> fst ` set kvs \<Longrightarrow>
   map_of (foldl (\<lambda>r kv. odict_set (fst kv) (snd kv) r) r kvs) k = map_of r k"
  by (induction kvs arbitrary: r) (simp_all add: map_of_odict_set)

lemma map_of_foldl_odict_set_last:
  assumes "j < length kvs" and "fst (kvs ! j) \<notin> fst ` set (drop (Suc j) kvs)"
  shows "map_of (foldl (\<lambda>r kv. odict_set (fst kv) (snd kv) r) r kvs) (fst (kvs ! j)) =
     Some (snd (kvs ! j))"
proof -
  let ?f = "\<lambda>r kv. odict_set (fst kv) (snd kv) r"
  have "foldl ?f r (take j kvs @ kvs ! j # drop (Suc j) kvs) =
      foldl ?f (odict_set (fst (kvs ! j)) (snd (kvs ! j)) (foldl ?f r (take j kvs))) (drop (Suc j) kvs)"
    by simp
  then have "foldl ?f r kvs =
      foldl ?f (odict_set (fst (kvs ! j)) (snd (kvs ! j)) (foldl ?f r (take j kvs))) (drop (Suc j) kvs)"
    by (simp only: id_take_nth_drop [OF assms(1), symmetric])
  then show ?thesis
    using assms(2) by (simp add: map_of_foldl_odict_set_other map_of_odict_set)
qed


text \<open>
  Claim C8. The loop of \<open>main\<close> stops only at a \<open>KeyboardInterrupt\<close>: it completes the
  first \<open>m\<close> identifiers, where the call for the identifier after them, if there is one,
  raised a \<open>KeyboardInterrupt\<close> and no call before did; every other exception is caught
  and the loop goes on. The Result Mapping has an entry for exactly the completed
  identifiers, in the order in which they were first processed. The entry of an
  identifier is what its last completed call gave: the citations that the call returned,
  an empty list included, or the empty list when the call raised.
\<close>

theorem main_records_completed_identifiers:
  "(let n = length unique_dois;
        m = completed p n 1 unique_dois;
        results = main_results p unique_dois
    in map fst results = first_seen (take m unique_dois) \<and>
       (\<forall>k<m. p (unique_dois ! k) (k + 1) n \<noteq> Inl KeyboardInterrupt) \<and>
       (m < n \<longrightarrow> p (unique_dois ! m) (m + 1) n = Inl KeyboardInterrupt) \<and>
       (\<forall>k<m. unique_dois ! k \<notin> set (drop (Suc k) (take m unique_dois)) \<longrightarrow>
          map_of results (unique_dois ! k) = Some (recorded (p (unique_dois ! k) (k + 1) n)) \<and>
          (p (unique_dois ! k) (k + 1) n = Inl Exception \<longrightarrow>
             map_of results (unique_dois ! k) = Some [])))"
proof -
  let ?n = "length unique_dois"
  let ?m = "completed p ?n 1 unique_dois"
  let ?es = "entries p ?n 1 unique_dois"
  let ?f = "\<lambda>r kv. odict_set (fst kv) (snd kv) r"
  have r: "main_results p unique_dois = foldl ?f [] ?es"
    by (simp add: main_results_def main_loop_entries)
  have keys: "map fst (main_results p unique_dois) = first_seen (take ?m unique_dois)"
    unfolding r keys_foldl_odict_set map_fst_entries first_seen_def by simp
  have running: "\<forall>k<?m. p (unique_dois ! k) (k + 1) ?n \<noteq> Inl KeyboardInterrupt"
  proof (intro allI impI)
    fix k
    assume "k < ?m"
    from nth_entries [OF this] show "p (unique_dois ! k) (k + 1) ?n \<noteq> Inl KeyboardInterrupt"
      by (simp add: add.commute)
  qed
  have stop: "?m < ?n \<longrightarrow> p (unique_dois ! ?m) (?m + 1) ?n = Inl KeyboardInterrupt"
  proof
    assume "?m < ?n"
    from completed_stops [OF this] show "p (unique_dois ! ?m) (?m + 1) ?n = Inl KeyboardInterrupt"
      by (simp add: add.commute)
  qed
  have entry: "\<forall>k<?m. unique_dois ! k \<notin> set (drop (Suc k) (take ?m unique_dois)) \<longrightarrow>
      map_of (main_results p unique_dois) (unique_dois ! k) =
        Some (recorded (p (unique_dois ! k) (k + 1) ?n)) \<and>
      (p (unique_dois ! k) (k + 1) ?n = Inl Exception \<longrightarrow>
         map_of (main_results p unique_dois) (unique_dois ! k) = Some [])"
  proof (intro allI impI)
    fix k
    assume k: "k < ?m" and last: "unique_dois ! k \<notin> set (drop (Suc k) (take ?m unique_dois))"
    from nth_entries [OF k] have e: "?es ! k = (unique_dois ! k, recorded (p (unique_dois ! k) (k + 1) ?n))"
      by (simp add: add.commute)
    have l: "k < length ?es" using k by (simp add: length_entries)
    have "fst ` set (drop (Suc k) ?es) = set (drop (Suc k) (map fst ?es))"
      by (simp add: drop_map)
    then have img: "fst ` set (drop (Suc k) ?es) = set (drop (Suc k) (take ?m unique_dois))"
      by (simp only: map_fst_entries)
    have "fst (?es ! k) \<notin> fst ` set (drop (Suc k) ?es)"
      unfolding img e fst_conv by (rule last)
    from map_of_foldl_odict_set_last [OF l this, of "[]"]
    have m: "map_of (main_results p unique_dois) (unique_dois ! k) =
        Some (recorded (p (unique_dois ! k) (k + 1) ?n))"
      by (simp only: r e fst_conv snd_conv)
    then show "map_of (main_results p unique_dois) (unique_dois ! k) =
        Some (recorded (p (unique_dois ! k) (k + 1) ?n)) \<and>
      (p (unique_dois ! k) (k + 1) ?n = Inl Exception \<longrightarrow>
         map_of (main_results p unique_dois) (unique_dois ! k) = Some [])"
      by simp
  qed
  from keys running stop entry show ?thesis by (simp only: Let_def simp_thms)
qed


text \<open>
  The theorem at the example: the first three identifiers have entries, the second an
  empty one, and the loop went on after it to the third.
\<close>

theorem main_records_completed_identifiers_witness:
  "completed flaky_process 5 1 five_dois = 3 \<and>
   map fst (main_results flaky_process five_dois) = [''10.1000/a'', ''10.1000/b'', ''10.1000/c''] \<and>
   map_of (main_results flaky_process five_dois) ''10.1000/b'' = Some [] \<and>
   map_of (main_results flaky_process five_dois) ''10.1000/c'' = Some [record_x]"
proof -
  have n: "length five_dois = 5" by (simp add: five_dois_def)
  have m: "completed flaky_process 5 1 five_dois = 3" by code_simp
  note t = main_records_completed_identifiers [of five_dois flaky_process, unfolded Let_def n m]
  have f: "first_seen (take 3 five_dois) = [''10.1000/a'', ''10.1000/b'', ''10.1000/c'']"
    by code_simp
  from t have keys: "map fst (main_results flaky_process five_dois) = first_seen (take 3 five_dois)"
    by blast
  from t have e: "\<forall>k<3. five_dois ! k \<notin> set (drop (Suc k) (take 3 five_dois)) \<longrightarrow>
      map_of (main_results flaky_process five_dois) (five_dois ! k) =
        Some (recorded (flaky_process (five_dois ! k) (k + 1) 5))"
    by blast
  have b: "five_dois ! 1 = ''10.1000/b''" "five_dois ! 1 \<notin> set (drop (Suc 1) (take 3 five_dois))"
    "recorded (flaky_process (five_dois ! 1) (1 + 1) 5) = []"
    by code_simp+
  have c: "five_dois ! 2 = ''10.1000/c''" "five_dois ! 2 \<notin> set (drop (Suc 2) (take 3 five_dois))"
    "recorded (flaky_process (five_dois ! 2) (2 + 1) 5) = [record_x]"
    by code_simp+
  from e b have 1: "map_of (main_results flaky_process five_dois) ''10.1000/b'' = Some []"
    by (metis numeral_2_eq_2 numeral_3_eq_3 lessI less_SucI One_nat_def)
  from e c have 2: "map_of (main_results flaky_process five_dois) ''10.1000/c'' = Some [record_x]"
    by (metis numeral_2_eq_2 numeral_3_eq_3 lessI)
  from m keys f 1 2 show ?thesis by simp
qed

section \<open>Properties of the enrichment\<close>

lemma trace_make_request_from:
  "\<exists>evs. trace (snd (make_request_from url params retry attempt w)) = trace w @ evs \<and>
     (attempt < retry \<longrightarrow> evs \<noteq> [] \<and> hd evs = Get url params)"
proof (induction "retry - attempt" arbitrary: attempt w)
  case 0
  then have "\<not> attempt < retry" by simp
  then show ?case by (simp add: make_request_from_done)
next
  case (Suc n)
  then have a: "attempt < retry" by simp
  have g: "trace (snd (http_get url params w)) = trace w @ [Get url params]"
    by (simp add: http_get_def)
  show ?case
  proof (cases "retryable (pending w 0)")
    case True
    let ?w1 = "sleep (backoff attempt (pending w 0)) (snd (http_get url params w))"
    from Suc.hyps(2) have "n = retry - Suc attempt" by simp
    then have "\<exists>evs. trace (snd (make_request_from url params retry (Suc attempt) ?w1)) =
        trace ?w1 @ evs \<and> (Suc attempt < retry \<longrightarrow> evs \<noteq> [] \<and> hd evs = Get url params)"
      by (rule Suc.hyps(1))
    then obtain evs where
      "trace (snd (make_request_from url params retry (Suc attempt) ?w1)) = trace ?w1 @ evs"
      by blast
    then have "trace (snd (make_request_from url params retry attempt w)) =
        trace w @ (Get url params # Sleep (backoff attempt (pending w 0)) # evs)"
      by (simp add: make_request_from_retry [OF a True] sleep_def g)
    then show ?thesis by (intro exI [of _ "Get url params # Sleep (backoff attempt (pending w 0)) # evs"]) simp
  next
    case False
    then consider body decoded where "pending w 0 = Response 200 body (Some decoded)"
      | body decoded where "pending w 0 = Response 404 body decoded"
      using not_retryable by blast
    then show ?thesis
    proof cases
      case 1
      show ?thesis
        by (intro exI [of _ "[Get url params]"]) (simp add: make_request_from_200 [OF a 1] g)
    next
      case 2
      show ?thesis
        by (intro exI [of _ "[Get url params]"]) (simp add: make_request_from_404 [OF a 2] g)
    qed
  qed
qed

lemma trace_get_metadata_from_crossref:
  "\<exists>evs. trace (snd (get_metadata_from_crossref d w)) =
     trace w @ Get (CROSSREF_BASE_URL @ ''/'' @ d) None # evs"
proof -
  let ?url = "CROSSREF_BASE_URL @ ''/'' @ d"
  obtain data w1 where m: "make_request ?url None RETRY_COUNT w = (data, w1)"
    by (cases "make_request ?url None RETRY_COUNT w")
  have "0 < RETRY_COUNT" by (simp add: RETRY_COUNT_def)
  with trace_make_request_from [of ?url None RETRY_COUNT 0 w] m
  obtain evs where "trace w1 = trace w @ evs" and "evs \<noteq> []" and "hd evs = Get ?url None"
    by (auto simp add: make_request_def)
  then have "trace w1 = trace w @ Get ?url None # tl evs" by (cases evs) simp_all
  moreover have "snd (get_metadata_from_crossref d w) = w1"
    unfolding get_metadata_from_crossref_def m by (simp split: option.splits)
  ultimately show ?thesis by blast
qed

lemma get_metadata_from_crossref_failed:
  "\<not> truthy (fst (make_request (CROSSREF_BASE_URL @ ''/'' @ d) None RETRY_COUNT w)) \<Longrightarrow>
   fst (get_metadata_from_crossref d w) = (JNull, [], [])"
  by (cases "make_request (CROSSREF_BASE_URL @ ''/'' @ d) None RETRY_COUNT w")
    (simp add: get_metadata_from_crossref_def)

lemma fill_from_fields:
  "doi (fill_from c (t, a, y)) = doi c"
  "source (fill_from c (t, a, y)) = source c"
  "title (fill_from c (t, a, y)) = (if truthy t \<and> \<not> truthy (title c) then t else title c)"
  "authors (fill_from c (t, a, y)) = (if a \<noteq> [] \<and> authors c = [] then a else authors c)"
  "year (fill_from c (t, a, y)) = (if y \<noteq> [] \<and> year c = [] then y else year c)"
  by (auto simp add: fill_from_def Let_def)

lemma fill_from_empty: "\<not> truthy t \<Longrightarrow> fill_from c (t, [], []) = c"
  by (simp add: fill_from_def)

lemma enrich_Cons:
  "enrich_citation_metadata (c # rest) w =
     (if missing_field c
      then (fill_from c (fst (get_metadata_from_crossref (doi c) w)) #
              fst (enrich_citation_metadata rest (pause (snd (get_metadata_from_crossref (doi c) w)))),
            snd (enrich_citation_metadata rest (pause (snd (get_metadata_from_crossref (doi c) w)))))
      else (c # fst (enrich_citation_metadata rest w), snd (enrich_citation_metadata rest w)))"
  by (simp split: prod.splits)

lemma enrich_append:
  "enrich_citation_metadata (xs @ ys) w =
     (fst (enrich_citation_metadata xs w) @
        fst (enrich_citation_metadata ys (snd (enrich_citation_metadata xs w))),
      snd (enrich_citation_metadata ys (snd (enrich_citation_metadata xs w))))"
  by (induction xs arbitrary: w)
    (simp_all add: enrich_Cons del: enrich_citation_metadata.simps(2))

lemma length_enrich: "length (fst (enrich_citation_metadata cs w)) = length cs"
  by (induction cs arbitrary: w)
    (simp_all add: enrich_Cons del: enrich_citation_metadata.simps(2))

lemma enrich_single:
  "enrich_citation_metadata [c] w =
     (if missing_field c
      then ([fill_from c (fst (get_metadata_from_crossref (doi c) w))],
            pause (snd (get_metadata_from_crossref (doi c) w)))
      else ([c], w))"
  by (simp add: enrich_Cons del: enrich_citation_metadata.simps(2))

lemma enrich_nth:
  assumes "i < length cs"
  shows "fst (enrich_citation_metadata cs w) ! i =
      hd (fst (enrich_citation_metadata [cs ! i] (snd (enrich_citation_metadata (take i cs) w))))"
    and "snd (enrich_citation_metadata (take (Suc i) cs) w) =
      snd (enrich_citation_metadata [cs ! i] (snd (enrich_citation_metadata (take i cs) w)))"
proof -
  let ?wi = "snd (enrich_citation_metadata (take i cs) w)"
  have l: "length (fst (enrich_citation_metadata (take i cs) w)) = i"
    using assms by (simp add: length_enrich)
  have "enrich_citation_metadata (take i cs @ (cs ! i # drop (Suc i) cs)) w =
      (fst (enrich_citation_metadata (take i cs) w) @
         fst (enrich_citation_metadata (cs ! i # drop (Suc i) cs) ?wi),
       snd (enrich_citation_metadata (cs ! i # drop (Suc i) cs) ?wi))"
    by (rule enrich_append)
  then have "fst (enrich_citation_metadata cs w) =
      fst (enrich_citation_metadata (take i cs) w) @
         fst (enrich_citation_metadata (cs ! i # drop (Suc i) cs) ?wi)"
    by (simp only: id_take_nth_drop [OF assms, symmetric] fst_conv)
  then have "fst (enrich_citation_metadata cs w) ! i =
      fst (enrich_citation_metadata (cs ! i # drop (Suc i) cs) ?wi) ! 0"
    using l by (simp add: nth_append)
  then show "fst (enrich_citation_metadata cs w) ! i =
      hd (fst (enrich_citation_metadata [cs ! i] ?wi))"
    by (simp add: enrich_Cons del: enrich_citation_metadata.simps(2))
  have "take (Suc i) cs = take i cs @ [cs ! i]"
    using assms by (rule take_Suc_conv_app_nth)
  then show "snd (enrich_citation_metadata (take (Suc i) cs) w) =
      snd (enrich_citation_metadata [cs ! i] ?wi)"
    by (simp only: enrich_append snd_conv)
qed


text \<open>
  Claim C6. For the record \<open>c\<close> at any position of the list, with the world \<open>before\<close>
  that the loop has reached when it comes to \<open>c\<close> and the world \<open>after\<close> it: when a
  title, the authors or the year of \<open>c\<close> is missing, the metadata of its identifier is
  looked up (a GET to the Crossref URL of the identifier, then a pause), and otherwise
  the world is unchanged: no lookup. The lookup fills only the fields that were empty: a
  field that is not empty keeps its value, an empty one takes the value found when that
  is not empty. When the lookup fails (the request gives no data) or finds only empty
  values, the record is unchanged. The identifier and the source tag never change.
\<close>

theorem enrich_looks_up_missing_only:
  assumes "i < length cs"
  shows
    "(let c = cs ! i;
          before = snd (enrich_citation_metadata (take i cs) w);
          after = snd (enrich_citation_metadata (take (Suc i) cs) w);
          found = fst (get_metadata_from_crossref (doi c) before);
          c' = fst (enrich_citation_metadata cs w) ! i
      in length (fst (enrich_citation_metadata cs w)) = length cs \<and>
         (missing_field c \<longrightarrow>
            after = pause (snd (get_metadata_from_crossref (doi c) before)) \<and>
            (\<exists>evs. trace after =
               trace before @ Get (CROSSREF_BASE_URL @ ''/'' @ doi c) None # evs) \<and>
            c' = fill_from c found) \<and>
         (\<not> missing_field c \<longrightarrow> after = before \<and> c' = c) \<and>
         doi c' = doi c \<and>
         source c' = source c \<and>
         title c' = (if \<not> truthy (title c) \<and> truthy (fst found) then fst found else title c) \<and>
         authors c' =
           (if authors c = [] \<and> fst (snd found) \<noteq> [] then fst (snd found) else authors c) \<and>
         year c' = (if year c = [] \<and> snd (snd found) \<noteq> [] then snd (snd found) else year c) \<and>
         (\<not> truthy (fst found) \<and> fst (snd found) = [] \<and> snd (snd found) = [] \<longrightarrow> c' = c) \<and>
         (\<not> truthy (fst (make_request (CROSSREF_BASE_URL @ ''/'' @ doi c) None RETRY_COUNT
               before)) \<longrightarrow> c' = c))"
proof -
  define c where "c = cs ! i"
  define before where "before = snd (enrich_citation_metadata (take i cs) w)"
  define after where "after = snd (enrich_citation_metadata (take (Suc i) cs) w)"
  define found where "found = fst (get_metadata_from_crossref (doi c) before)"
  define c' where "c' = fst (enrich_citation_metadata cs w) ! i"
  obtain t a y where f: "found = (t, a, y)" by (cases found)
  have n: "c' = (if missing_field c then fill_from c found else c)"
    unfolding c'_def enrich_nth(1) [OF assms] enrich_single
    by (simp add: c_def before_def found_def)
  have s: "after = (if missing_field c
      then pause (snd (get_metadata_from_crossref (doi c) before)) else before)"
    unfolding after_def enrich_nth(2) [OF assms] enrich_single
    by (simp add: c_def before_def)
  have l: "length (fst (enrich_citation_metadata cs w)) = length cs" by (rule length_enrich)
  have tr: "missing_field c \<longrightarrow>
      (\<exists>evs. trace after = trace before @ Get (CROSSREF_BASE_URL @ ''/'' @ doi c) None # evs)"
  proof
    assume m: "missing_field c"
    from trace_get_metadata_from_crossref [of "doi c" before] obtain evs
      where "trace (snd (get_metadata_from_crossref (doi c) before)) =
        trace before @ Get (CROSSREF_BASE_URL @ ''/'' @ doi c) None # evs" by blast
    then have "trace after =
        trace before @ Get (CROSSREF_BASE_URL @ ''/'' @ doi c) None # (evs @ [Pause])"
      using m by (simp add: s pause_def)
    then show "\<exists>evs. trace after =
        trace before @ Get (CROSSREF_BASE_URL @ ''/'' @ doi c) None # evs" ..
  qed
  have k: "doi c' = doi c" "source c' = source c"
    unfolding n f by (simp_all add: fill_from_fields)
  have ft: "title c' = (if \<not> truthy (title c) \<and> truthy (fst found) then fst found else title c)"
    unfolding n f by (auto simp add: fill_from_fields missing_field_def)
  have fa: "authors c' =
      (if authors c = [] \<and> fst (snd found) \<noteq> [] then fst (snd found) else authors c)"
    unfolding n f by (auto simp add: fill_from_fields missing_field_def)
  have fy: "year c' = (if year c = [] \<and> snd (snd found) \<noteq> [] then snd (snd found) else year c)"
    unfolding n f by (auto simp add: fill_from_fields missing_field_def)
  have e: "\<not> truthy (fst found) \<and> fst (snd found) = [] \<and> snd (snd found) = [] \<longrightarrow> c' = c"
    unfolding n f by (simp add: fill_from_empty)
  have fail: "\<not> truthy (fst (make_request (CROSSREF_BASE_URL @ ''/'' @ doi c) None RETRY_COUNT
      before)) \<longrightarrow> c' = c"
  proof
    assume "\<not> truthy (fst (make_request (CROSSREF_BASE_URL @ ''/'' @ doi c) None RETRY_COUNT before))"
    then have "found = (JNull, [], [])"
      unfolding found_def by (rule get_metadata_from_crossref_failed)
    then show "c' = c" unfolding n by (simp add: fill_from_empty)
  qed
  have "length (fst (enrich_citation_metadata cs w)) = length cs \<and>
    (missing_field c \<longrightarrow>
       after = pause (snd (get_metadata_from_crossref (doi c) before)) \<and>
       (\<exists>evs. trace after =
          trace before @ Get (CROSSREF_BASE_URL @ ''/'' @ doi c) None # evs) \<and>
       c' = fill_from c found) \<and>
    (\<not> missing_field c \<longrightarrow> after = before \<and> c' = c) \<and>
    doi c' = doi c \<and>
    source c' = source c \<and>
    title c' = (if \<not> truthy (title c) \<and> truthy (fst found) then fst found else title c) \<and>
    authors c' =
      (if authors c = [] \<and> fst (snd found) \<noteq> [] then fst (snd found) else authors c) \<and>
    year c' = (if year c = [] \<and> snd (snd found) \<noteq> [] then snd (snd found) else year c) \<and>
    (\<not> truthy (fst found) \<and> fst (snd found) = [] \<and> snd (snd found) = [] \<longrightarrow> c' = c) \<and>
    (\<not> truthy (fst (make_request (CROSSREF_BASE_URL @ ''/'' @ doi c) None RETRY_COUNT
          before)) \<longrightarrow> c' = c)"
    using l tr k ft fa fy e fail n s by (intro conjI impI) simp_all
  then show ?thesis
    unfolding c_def before_def after_def found_def c'_def Let_def .
qed


text \<open>
  The theorem at three records: the first lacks authors and a year and gets them from
  the answer, keeping its title; the second is complete and is not looked up; the lookup
  for the third fails with a 404 and leaves it unchanged.
\<close>

theorem enrich_looks_up_missing_only_witness:
  "missing_field (three_records ! 0) \<and>
   fst (enrich_citation_metadata three_records answer_once) ! 0 =
     record_x\<lparr>authors := [JStr ''A B'', JStr ''Org''], year := ''2019''\<rparr> \<and>
   \<not> missing_field (three_records ! 1) \<and>
   fst (enrich_citation_metadata three_records answer_once) ! 1 = record_y \<and>
   snd (enrich_citation_metadata (take (Suc 1) three_records) answer_once) =
     snd (enrich_citation_metadata (take 1 three_records) answer_once) \<and>
   missing_field (three_records ! 2) \<and>
   fst (enrich_citation_metadata three_records answer_once) ! 2 = record_b"
proof -
  have l: "0 < length three_records" "1 < length three_records" "2 < length three_records"
    by (simp_all add: three_records_def)
  note t0 = enrich_looks_up_missing_only [OF l(1), of answer_once, unfolded Let_def]
  note t1 = enrich_looks_up_missing_only [OF l(2), of answer_once, unfolded Let_def]
  note t2 = enrich_looks_up_missing_only [OF l(3), of answer_once, unfolded Let_def]
  have m0: "missing_field (three_records ! 0)" by code_simp
  have f0: "fill_from (three_records ! 0)
      (fst (get_metadata_from_crossref (doi (three_records ! 0))
         (snd (enrich_citation_metadata (take 0 three_records) answer_once)))) =
      record_x\<lparr>authors := [JStr ''A B'', JStr ''Org''], year := ''2019''\<rparr>"
    by code_simp
  from t0 m0 have "fst (enrich_citation_metadata three_records answer_once) ! 0 =
      fill_from (three_records ! 0)
        (fst (get_metadata_from_crossref (doi (three_records ! 0))
           (snd (enrich_citation_metadata (take 0 three_records) answer_once))))"
    by blast
  then have r0: "fst (enrich_citation_metadata three_records answer_once) ! 0 =
      record_x\<lparr>authors := [JStr ''A B'', JStr ''Org''], year := ''2019''\<rparr>"
    by (simp only: f0)
  have m1: "\<not> missing_field (three_records ! 1)" by code_simp
  from t1 m1 have r1: "snd (enrich_citation_metadata (take (Suc 1) three_records) answer_once) =
      snd (enrich_citation_metadata (take 1 three_records) answer_once) \<and>
    fst (enrich_citation_metadata three_records answer_once) ! 1 = three_records ! 1"
    by blast
  have n1: "three_records ! 1 = record_y" by (simp add: three_records_def)
  have m2: "missing_field (three_records ! 2)" by code_simp
  have "\<not> truthy (fst (make_request (CROSSREF_BASE_URL @ ''/'' @ doi (three_records ! 2)) None
      RETRY_COUNT (snd (enrich_citation_metadata (take 2 three_records) answer_once))))"
    by code_simp
  with t2 have "fst (enrich_citation_metadata three_records answer_once) ! 2 = three_records ! 2"
    by blast
  moreover have "three_records ! 2 = record_b" by (simp add: three_records_def)
  ultimately have r2: "fst (enrich_citation_metadata three_records answer_once) ! 2 = record_b"
    by simp
  from r1 n1 have r1': "fst (enrich_citation_metadata three_records answer_once) ! 1 = record_y"
    "snd (enrich_citation_metadata (take (Suc 1) three_records) answer_once) =
     snd (enrich_citation_metadata (take 1 three_records) answer_once)"
    by simp_all
  from m0 r0 m1 r1' m2 r2 show ?thesis by (intro conjI)
qed

section \<open>Properties of the OpenAlex adapter\<close>

declare citation_pages.simps [simp del]

lemma citation_pages_done:
  "\<not> (truthy cursor \<and> page_count < max_pages) \<Longrightarrow>
   citation_pages openalex_id cursor page_count citations w = (citations, w)"
  by (rule trans [OF citation_pages.simps]) (simp only: if_False)

lemma citation_pages_step:
  assumes "truthy cursor \<and> page_count < max_pages"
    and "make_request (OPENALEX_BASE_URL @ ''/works'')
          (Some [(''filter'', JStr (''cites:'' @ openalex_id)), (''per-page'', JNum 200),
                 (''cursor'', cursor),
                 (''select'', JStr ''doi,title,authorships,publication_year'')])
          RETRY_COUNT w = (data, w1)"
  shows "(\<exists>found. citation_pages openalex_id cursor page_count citations w = (found, w1)) \<or>
    (\<exists>next_cursor found.
       citation_pages openalex_id cursor page_count citations w =
         citation_pages openalex_id next_cursor (page_count + 1) found (pause w1))"
proof -
  have e: "citation_pages openalex_id cursor page_count citations w =
     (if \<not> truthy data then (citations, w1)
      else
        (case py_in ''results'' data of
           None \<Rightarrow> (citations, w1)
         | Some False \<Rightarrow> (citations, w1)
         | Some True \<Rightarrow>
             (case do { results \<leftarrow> dict_get data ''results'' (JArr []); py_iter results } of
                None \<Rightarrow> (citations, w1)
              | Some works \<Rightarrow>
                  (case works_loop works citations of
                     (citations1, False) \<Rightarrow> (citations1, w1)
                   | (citations1, True) \<Rightarrow>
                       (case do { meta \<leftarrow> dict_get data ''meta'' (JObj []);
                                  dict_get meta ''next_cursor'' JNull } of
                          None \<Rightarrow> (citations1, w1)
                        | Some next_cursor \<Rightarrow>
                            citation_pages openalex_id next_cursor (page_count + 1)
                              citations1 (pause w1))))))"
    by (rule trans [OF citation_pages.simps]) (simp only: assms if_True prod.case simp_thms)
  show ?thesis
    unfolding e by (simp split: option.splits bool.splits prod.splits) blast
qed


lemma pauses_pause: "pauses (pause w) = Suc (pauses w)"
  by (simp add: pauses_def pause_def)

lemma gets_pause: "gets (pause w) = gets w"
  by (simp add: gets_def pause_def)

lemma counts_make_request:
  "gets (snd (make_request url params retry w)) \<le> gets w + retry \<and>
   pauses (snd (make_request url params retry w)) = pauses w"
  using counts_make_request_from [of url params retry 0 w] by (simp add: make_request_def)

lemma counts_citation_pages:
  "pauses (snd (citation_pages openalex_id cursor page_count citations w))
     \<le> pauses w + (max_pages - page_count) \<and>
   gets (snd (citation_pages openalex_id cursor page_count citations w))
     \<le> gets w + RETRY_COUNT * (max_pages - page_count)"
proof (induction "max_pages - page_count" arbitrary: cursor page_count citations w)
  case 0
  then have "\<not> (truthy cursor \<and> page_count < max_pages)" by simp
  then show ?case by (simp add: citation_pages_done)
next
  case (Suc n)
  then have lt: "page_count < max_pages" by simp
  show ?case
  proof (cases "truthy cursor")
    case False
    then have "\<not> (truthy cursor \<and> page_count < max_pages)" by simp
    then show ?thesis by (simp add: citation_pages_done)
  next
    case True
    with lt have go: "truthy cursor \<and> page_count < max_pages" by simp
    let ?params = "Some [(''filter'', JStr (''cites:'' @ openalex_id)), (''per-page'', JNum 200),
                 (''cursor'', cursor),
                 (''select'', JStr ''doi,title,authorships,publication_year'')]"
    obtain data w1 where m: "make_request (OPENALEX_BASE_URL @ ''/works'') ?params RETRY_COUNT w = (data, w1)"
      by (cases "make_request (OPENALEX_BASE_URL @ ''/works'') ?params RETRY_COUNT w")
    from counts_make_request [of "OPENALEX_BASE_URL @ ''/works''" ?params RETRY_COUNT w]
    have g1: "gets w1 \<le> gets w + RETRY_COUNT" and p1: "pauses w1 = pauses w"
      unfolding m by simp_all
    from citation_pages_step [OF go m, of citations]
    consider found where "citation_pages openalex_id cursor page_count citations w = (found, w1)"
      | next_cursor found where "citation_pages openalex_id cursor page_count citations w =
         citation_pages openalex_id next_cursor (page_count + 1) found (pause w1)"
      by blast
    then show ?thesis
    proof cases
      case 1
      have k: "1 \<le> max_pages - page_count" using lt by simp
      have c: "RETRY_COUNT \<le> RETRY_COUNT * (max_pages - page_count)"
        using mult_le_mono2 [OF k, of RETRY_COUNT] by (simp only: nat_mult_1_right)
      have "gets w1 \<le> gets w + RETRY_COUNT * (max_pages - page_count)"
        by (rule le_trans [OF g1 add_left_mono [OF c]])
      moreover have "pauses w1 \<le> pauses w + (max_pages - page_count)" using p1 by simp
      ultimately show ?thesis unfolding 1 snd_conv by (rule conjI [rotated])
    next
      case 2
      from Suc.hyps(2) have "n = max_pages - (page_count + 1)" by simp
      from Suc.hyps(1) [OF this, of next_cursor found "pause w1"]
      have ih: "pauses (snd (citation_pages openalex_id next_cursor (page_count + 1) found (pause w1)))
          \<le> Suc (pauses w) + (max_pages - (page_count + 1))"
        "gets (snd (citation_pages openalex_id next_cursor (page_count + 1) found (pause w1)))
          \<le> gets w1 + RETRY_COUNT * (max_pages - (page_count + 1))"
        by (simp_all add: pauses_pause gets_pause p1)
      have a: "Suc (pauses w) + (max_pages - (page_count + 1)) = pauses w + (max_pages - page_count)"
        using lt by simp
      have "max_pages - page_count = Suc (max_pages - (page_count + 1))" using lt by simp
      then have "RETRY_COUNT * (max_pages - page_count) =
          RETRY_COUNT + RETRY_COUNT * (max_pages - (page_count + 1))"
        by (simp only: mult_Suc_right)
      with g1 have b: "gets w1 + RETRY_COUNT * (max_pages - (page_count + 1))
          \<le> gets w + RETRY_COUNT * (max_pages - page_count)"
        by linarith
      from ih(1) a have "pauses (snd (citation_pages openalex_id next_cursor (page_count + 1) found (pause w1)))
          \<le> pauses w + (max_pages - page_count)" by (simp only:)
      moreover from ih(2) b have "gets (snd (citation_pages openalex_id next_cursor (page_count + 1) found (pause w1)))
          \<le> gets w + RETRY_COUNT * (max_pages - page_count)" by (rule le_trans)
      ultimately show ?thesis unfolding 2 by (rule conjI)
    qed
  qed
qed


lemma works_loop_flag: "snd (works_loop works citations) = snd (works_loop works [])"
proof (induction works arbitrary: citations)
  case Nil
  show ?case by simp
next
  case (Cons work works)
  have "snd (works_loop (work # works) found) =
     (case dict_get work ''doi'' (JStr []) of
        None \<Rightarrow> False
      | Some raw_doi \<Rightarrow>
          if truthy raw_doi then
            (case normalize_doi (py_str raw_doi) of
               None \<Rightarrow> snd (works_loop works [])
             | Some citing_doi \<Rightarrow>
                 (case openalex_citation work citing_doi of
                    None \<Rightarrow> False
                  | Some c \<Rightarrow> snd (works_loop works [])))
          else snd (works_loop works []))" for found
    using Cons.IH [of found] Cons.IH [of "found @ [c]" for c]
    by (simp split: option.splits)
  from this [of citations] this [of "[]"] show ?case by simp
qed

lemma endless_citation_pages:
  assumes "\<forall>n. \<exists>body page. pending w n = Response 200 body (Some page) \<and> endless_page page"
    and "truthy cursor"
  shows "pauses (snd (citation_pages openalex_id cursor page_count citations w))
      = pauses w + (max_pages - page_count) \<and>
    gets (snd (citation_pages openalex_id cursor page_count citations w))
      = gets w + (max_pages - page_count)"
  using assms
proof (induction "max_pages - page_count" arbitrary: cursor page_count citations w)
  case 0
  then have "\<not> (truthy cursor \<and> page_count < max_pages)" by simp
  then show ?case using 0 by (simp add: citation_pages_done)
next
  case (Suc n)
  then have lt: "page_count < max_pages" by simp
  let ?url = "OPENALEX_BASE_URL @ ''/works''"
  let ?params = "Some [(''filter'', JStr (''cites:'' @ openalex_id)), (''per-page'', JNum 200),
                 (''cursor'', cursor),
                 (''select'', JStr ''doi,title,authorships,publication_year'')]"
  let ?w1 = "snd (http_get ?url ?params w)"
  from Suc.prems(1) obtain body page
    where p0: "pending w 0 = Response 200 body (Some page)" and e: "endless_page page"
    by blast
  have "0 < RETRY_COUNT" by (simp add: RETRY_COUNT_def)
  then have m: "make_request ?url ?params RETRY_COUNT w = (page, ?w1)"
    unfolding make_request_def using p0 by (rule make_request_from_200)
  from e have tp: "truthy page" and pin: "py_in ''results'' page = Some True"
    by (simp_all add: endless_page_def)
  from e obtain works
    where ws: "do { results \<leftarrow> dict_get page ''results'' (JArr []); py_iter results } = Some works"
      and fl: "snd (works_loop works [])"
    by (auto simp add: endless_page_def split: option.splits)
  from e obtain next_cursor
    where nc: "do { meta \<leftarrow> dict_get page ''meta'' (JObj []);
                    dict_get meta ''next_cursor'' JNull } = Some next_cursor"
      and tn: "truthy next_cursor"
    by (auto simp add: endless_page_def split: option.splits)
  from fl have "snd (works_loop works citations)" by (simp only: works_loop_flag [of works citations])
  then obtain found where wl: "works_loop works citations = (found, True)"
    by (cases "works_loop works citations") simp
  have step: "citation_pages openalex_id cursor page_count citations w =
      citation_pages openalex_id next_cursor (page_count + 1) found (pause ?w1)"
    by (rule trans [OF citation_pages.simps])
      (simp only: Suc.prems(2) lt m tp pin ws wl nc if_True if_False prod.case option.case
        bool.case simp_thms)
  have pn: "\<forall>n. \<exists>body page. pending (pause ?w1) n = Response 200 body (Some page) \<and> endless_page page"
    using Suc.prems(1) by (simp add: pause_def http_get_def)
  from Suc.hyps(2) have "n = max_pages - (page_count + 1)" by simp
  from Suc.hyps(1) [OF this pn tn, of found]
  have ih: "pauses (snd (citation_pages openalex_id next_cursor (page_count + 1) found (pause ?w1)))
      = pauses (pause ?w1) + (max_pages - (page_count + 1))"
    "gets (snd (citation_pages openalex_id next_cursor (page_count + 1) found (pause ?w1)))
      = gets (pause ?w1) + (max_pages - (page_count + 1))"
    by simp_all
  have a: "pauses (pause ?w1) = Suc (pauses w)" "gets (pause ?w1) = Suc (gets w)"
    by (simp_all add: pauses_pause gets_pause pauses_http_get gets_http_get)
  from ih a lt show ?case unfolding step by simp
qed


lemma get_citations_from_openalex_shape:
  assumes "make_request (OPENALEX_BASE_URL @ ''/works/doi:'' @ d) None RETRY_COUNT w = (work_data, w1)"
  shows "(\<exists>found. get_citations_from_openalex d w = (found, w1)) \<or>
    (\<exists>openalex_id. get_citations_from_openalex d w =
       citation_pages openalex_id (JStr ''*'') 0 [] w1)"
  unfolding get_citations_from_openalex_def assms
  by (simp split: option.splits prod.splits) blast

lemma get_citations_from_openalex_citable:
  assumes "make_request (OPENALEX_BASE_URL @ ''/works/doi:'' @ d) None RETRY_COUNT w = (work_data, w1)"
    and "citable_work work_data"
  shows "\<exists>openalex_id. get_citations_from_openalex d w =
       citation_pages openalex_id (JStr ''*'') 0 [] w1"
  using assms(2) unfolding get_citations_from_openalex_def assms(1) citable_work_def
  by (auto split: option.splits prod.splits)

text \<open>
  Claim C7. The adapter is a total function of the outcomes of the network: the loop
  over the pages is defined by recursion on the pages left under the cap. Whatever the
  source sends, the adapter makes at most 50 pauses, one after each page whose next
  cursor it takes, and at most \<open>RETRY_COUNT\<close> GETs for the work and for each of at most 50
  pages. At a source that always sends a next cursor (a work that is cited, then at
  every request a page with results and a cursor that is not empty), the loop stops at
  the cap: exactly 50 pages are requested.
\<close>

theorem openalex_pages_stop_at_cap:
  "max_pages = 50 \<and>
   pauses (snd (get_citations_from_openalex d w)) \<le> pauses w + max_pages \<and>
   gets (snd (get_citations_from_openalex d w)) \<le> gets w + RETRY_COUNT * (max_pages + 1) \<and>
   ((\<exists>body work_data. pending w 0 = Response 200 body (Some work_data) \<and> citable_work work_data) \<and>
    (\<forall>n. \<exists>body page. pending w (Suc n) = Response 200 body (Some page) \<and> endless_page page) \<longrightarrow>
      pauses (snd (get_citations_from_openalex d w)) = pauses w + max_pages \<and>
      gets (snd (get_citations_from_openalex d w)) = gets w + 1 + max_pages)"
proof (intro conjI impI)
  let ?url = "OPENALEX_BASE_URL @ ''/works/doi:'' @ d"
  obtain work_data w1 where m: "make_request ?url None RETRY_COUNT w = (work_data, w1)"
    by (cases "make_request ?url None RETRY_COUNT w")
  from counts_make_request [of ?url None RETRY_COUNT w]
  have g1: "gets w1 \<le> gets w + RETRY_COUNT" and p1: "pauses w1 = pauses w"
    unfolding m by simp_all
  from get_citations_from_openalex_shape [OF m]
  consider found where "get_citations_from_openalex d w = (found, w1)"
    | openalex_id where "get_citations_from_openalex d w =
       citation_pages openalex_id (JStr ''*'') 0 [] w1"
    by blast
  then have "pauses (snd (get_citations_from_openalex d w)) \<le> pauses w + max_pages \<and>
    gets (snd (get_citations_from_openalex d w)) \<le> gets w + RETRY_COUNT * (max_pages + 1)"
  proof cases
    case 1
    have "gets w + RETRY_COUNT \<le> gets w + RETRY_COUNT * (max_pages + 1)" by simp
    with g1 p1 show ?thesis unfolding 1 by simp
  next
    case 2
    from counts_citation_pages [of openalex_id "JStr ''*''" 0 "[]" w1]
    have "pauses (snd (citation_pages openalex_id (JStr ''*'') 0 [] w1)) \<le> pauses w + max_pages"
      and "gets (snd (citation_pages openalex_id (JStr ''*'') 0 [] w1))
        \<le> gets w1 + RETRY_COUNT * max_pages"
      by (simp_all add: p1)
    with g1 show ?thesis unfolding 2 by simp
  qed
  then show "pauses (snd (get_citations_from_openalex d w)) \<le> pauses w + max_pages"
    and "gets (snd (get_citations_from_openalex d w)) \<le> gets w + RETRY_COUNT * (max_pages + 1)"
    by simp_all
  show "max_pages = 50" by (rule max_pages_def)
next
  let ?url = "OPENALEX_BASE_URL @ ''/works/doi:'' @ d"
  let ?w1 = "snd (http_get ?url None w)"
  assume a: "(\<exists>body work_data. pending w 0 = Response 200 body (Some work_data) \<and> citable_work work_data) \<and>
    (\<forall>n. \<exists>body page. pending w (Suc n) = Response 200 body (Some page) \<and> endless_page page)"
  then obtain body work_data
    where p0: "pending w 0 = Response 200 body (Some work_data)" and c: "citable_work work_data"
    by blast
  have "0 < RETRY_COUNT" by (simp add: RETRY_COUNT_def)
  then have m: "make_request ?url None RETRY_COUNT w = (work_data, ?w1)"
    unfolding make_request_def using p0 by (rule make_request_from_200)
  from get_citations_from_openalex_citable [OF m c] obtain openalex_id
    where e: "get_citations_from_openalex d w = citation_pages openalex_id (JStr ''*'') 0 [] ?w1"
    by blast
  have pn: "\<forall>n. \<exists>body page. pending ?w1 n = Response 200 body (Some page) \<and> endless_page page"
    using a by (simp add: http_get_def)
  have "truthy (JStr ''*'')" by simp
  from endless_citation_pages [OF pn this, of openalex_id 0 "[]"]
  have r: "pauses (snd (citation_pages openalex_id (JStr ''*'') 0 [] ?w1)) = pauses ?w1 + max_pages"
    "gets (snd (citation_pages openalex_id (JStr ''*'') 0 [] ?w1)) = gets ?w1 + max_pages"
    by simp_all
  from r show "pauses (snd (get_citations_from_openalex d w)) = pauses w + max_pages"
    unfolding e by (simp add: pauses_http_get)
  from r show "gets (snd (get_citations_from_openalex d w)) = gets w + 1 + max_pages"
    unfolding e by (simp add: gets_http_get)
qed


text \<open>
  The theorem at a source that sends a next cursor at every request: the adapter
  requests the work and 50 pages, and returns.
\<close>

theorem openalex_pages_stop_at_cap_witness:
  "citable_work endless_answer \<and>
   endless_page endless_answer \<and>
   pauses (snd (get_citations_from_openalex ''10.1000/xyz123'' endless_source)) = 50 \<and>
   gets (snd (get_citations_from_openalex ''10.1000/xyz123'' endless_source)) = 51"
proof -
  have c: "citable_work endless_answer" by code_simp
  have e: "endless_page endless_answer" by code_simp
  have 0: "pauses endless_source = 0" "gets endless_source = 0"
    by (simp_all add: pauses_def gets_def endless_source_def)
  have h: "(\<exists>body work_data. pending endless_source 0 = Response 200 body (Some work_data) \<and>
        citable_work work_data) \<and>
      (\<forall>n. \<exists>body page. pending endless_source (Suc n) = Response 200 body (Some page) \<and>
        endless_page page)"
    using c e by (simp add: endless_source_def)
  from openalex_pages_stop_at_cap [of "''10.1000/xyz123''" endless_source] h
  have "max_pages = 50 \<and>
    pauses (snd (get_citations_from_openalex ''10.1000/xyz123'' endless_source)) =
      pauses endless_source + max_pages \<and>
    gets (snd (get_citations_from_openalex ''10.1000/xyz123'' endless_source)) =
      gets endless_source + 1 + max_pages"
    by blast
  with c e 0 show ?thesis by simp
qed

end
